theory Spec2Isabelle
  imports Main "HOL-Library.Signed_Division"
begin

section \<open>Memory model: faults, buffers and C strings\<close>

text \<open>
  A \<open>char\<close> array is modelled by the list of its bytes, and a pointer into an array by
  the list of the bytes from the pointed-to element to the end of the array. An access
  outside that list is undefined behaviour in C; here it is the value \<open>Inl OutOfBounds\<close>,
  and a remainder by zero is \<open>Inl DivByZero\<close>.
\<close>

datatype fault = OutOfBounds | DivByZero

definition bind_fault :: "fault + 'a \<Rightarrow> ('a \<Rightarrow> fault + 'b) \<Rightarrow> fault + 'b" where
  "bind_fault r f = (case r of Inl e \<Rightarrow> Inl e | Inr x \<Rightarrow> f x)"

abbreviation NUL :: char where
  "NUL \<equiv> CHR 0x00"

abbreviation newline :: char where
  "newline \<equiv> CHR 0x0A"

type_synonym buffer = string

text \<open>\<open>strlen\<close> scans for the terminator and leaves the array when there is none.\<close>

definition strlen :: "buffer \<Rightarrow> fault + nat" where
  "strlen s = (if NUL \<in> set s then Inr (length (takeWhile (\<lambda>c. c \<noteq> NUL) s))
               else Inl OutOfBounds)"

definition memcpy :: "buffer \<Rightarrow> buffer \<Rightarrow> nat \<Rightarrow> fault + buffer" where
  "memcpy dest src n =
     (if n \<le> length dest \<and> n \<le> length src then Inr (take n src @ drop n dest)
      else Inl OutOfBounds)"

text \<open>The assignment \<open>b[i] = c\<close>.\<close>

definition store_byte :: "buffer \<Rightarrow> nat \<Rightarrow> char \<Rightarrow> fault + buffer" where
  "store_byte b i c = (if i < length b then Inr (b[i := c]) else Inl OutOfBounds)"

text \<open>
  A pointer argument is an \<open>option\<close>: \<open>None\<close> is the null pointer. A \<open>void\<close> function
  that writes through a pointer returns what the pointer refers to afterwards;
  \<open>pointee old p\<close> is the object the caller then holds (unchanged behind a null pointer).
\<close>

definition pointee :: "'a \<Rightarrow> 'a option \<Rightarrow> 'a" where
  "pointee old p = (case p of None \<Rightarrow> old | Some new \<Rightarrow> new)"

text \<open>The string a buffer holds: its bytes before the first terminator.\<close>

definition cstring :: "buffer \<Rightarrow> string" where
  "cstring b = takeWhile (\<lambda>c. c \<noteq> NUL) b"

section \<open>Notes and the buffer helpers\<close>

definition NOTE_CONTENT_LEN :: nat where
  "NOTE_CONTENT_LEN = 1024"

definition TITLE_LEN :: nat where
  "TITLE_LEN = 32"

record Note =
  title :: buffer
  content :: buffer

text \<open>
  \<^verbatim>\<open>
  static void safe_string_copy(char* dest, const char* src, size_t dest_size) {
      if (!dest || !src || dest_size == 0) return;
      size_t src_len = strlen(src);
      size_t copy_len = src_len < (dest_size - 1) ? src_len : (dest_size - 1);
      memcpy(dest, src, copy_len);
      dest[copy_len] = '\0';
  }
  \<close>
\<close>

definition safe_string_copy :: "buffer option \<Rightarrow> buffer option \<Rightarrow> nat \<Rightarrow> fault + buffer option" where
  "safe_string_copy dest src dest_size =
     (case (dest, src) of
        (Some d, Some s) \<Rightarrow>
          if dest_size = 0 then Inr dest
          else
            bind_fault (strlen s) (\<lambda>src_len.
            let copy_len = (if src_len < dest_size - 1 then src_len else dest_size - 1) in
            bind_fault (memcpy d s copy_len) (\<lambda>d1.
            bind_fault (store_byte d1 copy_len NUL) (\<lambda>d2.
            Inr (Some d2))))
      | _ \<Rightarrow> Inr dest)"

text \<open>
  \<^verbatim>\<open>
  static void append_to_note(Note* note, const char* new_content) {
      if (!note || !new_content) return;
      size_t current_len = strlen(note->content);
      size_t new_len = strlen(new_content);
      if (current_len + new_len + 2 >= NOTE_CONTENT_LEN) return;
      if (current_len > 0) {
          note->content[current_len] = '\n';
          current_len++;
      }
      safe_string_copy(note->content + current_len, new_content,
                       NOTE_CONTENT_LEN - current_len);
  }
  \<close>
  The pointer \<open>note->content + current_len\<close> is \<open>drop cl c\<close>; the bytes before it are
  \<open>take cl c\<close>.
\<close>

definition append_to_note :: "Note option \<Rightarrow> buffer option \<Rightarrow> fault + Note option" where
  "append_to_note note new_content =
     (case (note, new_content) of
        (Some n, Some new) \<Rightarrow>
          bind_fault (strlen (content n)) (\<lambda>current_len.
          bind_fault (strlen new) (\<lambda>new_len.
            if current_len + new_len + 2 \<ge> NOTE_CONTENT_LEN then Inr note
            else
              bind_fault
                (if current_len > 0
                 then bind_fault (store_byte (content n) current_len newline)
                        (\<lambda>c. Inr (c, current_len + 1))
                 else Inr (content n, current_len)) (\<lambda>(c, cl).
              bind_fault
                (safe_string_copy (Some (drop cl c)) new_content (NOTE_CONTENT_LEN - cl)) (\<lambda>d.
              Inr (Some (n\<lparr>content := take cl c @ pointee (drop cl c) d\<rparr>))))))
      | _ \<Rightarrow> Inr note)"

section \<open>The notes directory on the SD card\<close>

text \<open>
  The C library and the file system are outside the program. What the program can observe
  of them is a record: whether \<open>opendir\<close> finds the notes directory, whether \<open>mkdir\<close> can
  create it, the entries \<open>readdir\<close> yields in its order, the bytes of every file that
  \<open>fopen\<close> can open for reading (by path), and which paths \<open>fopen\<close> can open for writing.
  A file created in the directory is enumerated after the entries already there.
\<close>

datatype file_type = DT_REG | DT_DIR | DT_UNKNOWN

record dirent =
  d_name :: buffer
  d_type :: file_type

record filesystem =
  dir_present :: bool
  mkdir_works :: bool
  dir_entries :: "dirent list"
  files :: "string \<rightharpoonup> string"
  writable :: "string \<Rightarrow> bool"

definition NOTES_DIR :: string where
  "NOTES_DIR = ''sdmc:/3ds.md/''"

definition mkdir :: "filesystem \<Rightarrow> filesystem" where
  "mkdir fs = (if mkdir_works fs then fs\<lparr>dir_present := True, dir_entries := []\<rparr> else fs)"

definition entry_names :: "filesystem \<Rightarrow> string list" where
  "entry_names fs = map (\<lambda>e. cstring (d_name e)) (dir_entries fs)"

text \<open>
  \<open>fopen(path, "wb")\<close>: on success the file exists and is empty; when it is a new file
  directly inside the notes directory it gets a directory entry.
\<close>

definition fopen_wb :: "filesystem \<Rightarrow> string \<Rightarrow> filesystem option" where
  "fopen_wb fs path =
     (if dir_present fs \<and> writable fs path then
        let name = drop (length NOTES_DIR) path in
        Some (fs\<lparr>files := (files fs)(path \<mapsto> []),
                 dir_entries :=
                   (if name = [] \<or> CHR ''/'' \<in> set name \<or> name \<in> set (entry_names fs)
                    then dir_entries fs
                    else dir_entries fs @ [\<lparr>d_name = name @ [NUL], d_type = DT_REG\<rparr>])\<rparr>)
      else None)"

definition fwrite :: "filesystem \<Rightarrow> string \<Rightarrow> string \<Rightarrow> filesystem" where
  "fwrite fs path bytes = fs\<lparr>files := (files fs)(path \<mapsto> bytes)\<rparr>"

text \<open>
  \<open>fread(buf, 1, n, file)\<close> on a freshly opened file: the first \<open>n\<close> bytes of the file, or
  all of it when it is shorter, and their number.
\<close>

definition fread :: "buffer \<Rightarrow> string \<Rightarrow> nat \<Rightarrow> fault + (buffer \<times> nat)" where
  "fread buf data n =
     (let len = min n (length data) in
      bind_fault (memcpy buf data len) (\<lambda>b. Inr (b, len)))"

text \<open>
  \<^verbatim>\<open>char filepath[256]; snprintf(filepath, sizeof(filepath), "%s%s", NOTES_DIR, name);\<close>
  keeps at most 255 bytes.
\<close>

definition snprintf_filepath :: "buffer \<Rightarrow> fault + string" where
  "snprintf_filepath name =
     bind_fault (strlen name) (\<lambda>n. Inr (take 255 (NOTES_DIR @ take n name)))"

text \<open>
  \<^verbatim>\<open>
  static void ensure_notes_directory(void) {
      DIR* dir = opendir(NOTES_DIR);
      if (!dir) { mkdir(NOTES_DIR, 0777); } else { closedir(dir); }
  }
  \<close>
\<close>

definition ensure_notes_directory :: "filesystem \<Rightarrow> filesystem" where
  "ensure_notes_directory fs = (if \<not> dir_present fs then mkdir fs else fs)"

text \<open>
  \<^verbatim>\<open>
  static void save_note(const char* title, const char* content) {
      ensure_notes_directory();
      char filepath[256];
      snprintf(filepath, sizeof(filepath), "%s%s", NOTES_DIR, title);
      FILE* file = fopen(filepath, "wb");
      if (file) {
          size_t len = strlen(content);
          if (len > 0) { fwrite(content, 1, len, file); }
          fclose(file);
      }
  }
  \<close>
\<close>

definition save_note :: "filesystem \<Rightarrow> buffer \<Rightarrow> buffer \<Rightarrow> fault + filesystem" where
  "save_note fs title_arg content_arg =
     (let fs1 = ensure_notes_directory fs in
      bind_fault (snprintf_filepath title_arg) (\<lambda>filepath.
      case fopen_wb fs1 filepath of
        Some fs2 \<Rightarrow>
          bind_fault (strlen content_arg) (\<lambda>len.
            if len > 0 then Inr (fwrite fs2 filepath (take len content_arg)) else Inr fs2)
      | None \<Rightarrow> Inr fs1))"

section \<open>Application state\<close>

datatype AppMode = MODE_MENU | MODE_NOTE_LIST | MODE_VIEW_NOTE | MODE_EDIT_NOTE

definition MAX_NOTES :: int where
  "MAX_NOTES = 10"

text \<open>
  The globals of the program (the array \<open>notes\<close> is the field \<open>notes_array\<close>) and the file
  system. The \<open>int\<close> variables are unbounded integers here: \<open>app_inv\<close> below keeps them
  between \<open>-1\<close> and \<open>10\<close>, so 32-bit arithmetic never wraps.
\<close>

record app_state =
  notes_array :: "Note list"
  note_count :: int
  selectedMenu :: int
  selectedNote :: int
  mode :: AppMode
  currentNoteContent :: buffer
  currentNoteTitle :: buffer
  sdmc :: filesystem

definition array_get :: "'a list \<Rightarrow> int \<Rightarrow> fault + 'a" where
  "array_get a i = (if 0 \<le> i \<and> i < int (length a) then Inr (a ! nat i) else Inl OutOfBounds)"

text \<open>C's \<open>%\<close> on \<open>int\<close>: the remainder of the division that truncates towards zero.\<close>

definition c_mod :: "int \<Rightarrow> int \<Rightarrow> fault + int" where
  "c_mod a b = (if b = 0 then Inl DivByZero else Inr (a smod b))"

text \<open>
  The \<open>readdir\<close> loop of \<open>load_notes\<close>, over the entries not yet read:
  \<^verbatim>\<open>
  while ((entry = readdir(dir)) != NULL && note_count < MAX_NOTES) {
      if (entry->d_type == DT_REG) {
          char filepath[256];
          snprintf(filepath, sizeof(filepath), "%s%s", NOTES_DIR, entry->d_name);
          FILE* file = fopen(filepath, "rb");
          if (file) {
              safe_string_copy(notes[note_count].title, entry->d_name, TITLE_LEN);
              size_t len = fread(notes[note_count].content, 1, NOTE_CONTENT_LEN - 1, file);
              notes[note_count].content[len] = '\0';
              note_count++;
              fclose(file);
          }
      }
  }
  \<close>
\<close>

fun load_entries :: "dirent list \<Rightarrow> app_state \<Rightarrow> fault + app_state" where
  "load_entries [] s = Inr s"
| "load_entries (entry # rest) s =
     (if note_count s < MAX_NOTES then
        (if d_type entry = DT_REG then
           bind_fault (snprintf_filepath (d_name entry)) (\<lambda>filepath.
           case files (sdmc s) filepath of
             Some data \<Rightarrow>
               bind_fault (array_get (notes_array s) (note_count s)) (\<lambda>n.
               bind_fault (safe_string_copy (Some (title n)) (Some (d_name entry)) TITLE_LEN) (\<lambda>dest.
               bind_fault (fread (content n) data (NOTE_CONTENT_LEN - 1)) (\<lambda>(c, len).
               bind_fault (store_byte c len NUL) (\<lambda>c'.
                 load_entries rest
                   (s\<lparr>notes_array := (notes_array s)[nat (note_count s) :=
                                   \<lparr>title = pointee (title n) dest, content = c'\<rparr>],
                      note_count := note_count s + 1\<rparr>)))))
           | None \<Rightarrow> load_entries rest s)
         else load_entries rest s)
      else Inr s)"

text \<open>
  \<^verbatim>\<open>
  static void load_notes(void) {
      ensure_notes_directory();
      note_count = 0;
      DIR* dir = opendir(NOTES_DIR);
      if (!dir) return;
      ... the loop ...
      closedir(dir);
  }
  \<close>
\<close>

definition load_notes :: "app_state \<Rightarrow> fault + app_state" where
  "load_notes s =
     (let s1 = s\<lparr>sdmc := ensure_notes_directory (sdmc s), note_count := 0\<rparr> in
      if \<not> dir_present (sdmc s1) then Inr s1
      else load_entries (dir_entries (sdmc s1)) s1)"

section \<open>Input events\<close>

text \<open>
  One pass of the main loop sees the keys that went down (\<open>kDown & KEY_UP\<close> and so on,
  several may be set at once) and, when it opens the software keyboard, the button that
  closed it and the text typed.
\<close>

datatype SwkbdButton = SWKBD_BUTTON_LEFT | SWKBD_BUTTON_MIDDLE | SWKBD_BUTTON_RIGHT | SWKBD_BUTTON_NONE

record frame_input =
  key_start :: bool
  key_up :: bool
  key_down :: bool
  key_a :: bool
  key_b :: bool
  swkbd_button :: SwkbdButton
  swkbd_text :: string

text \<open>
  \<open>swkbdInputText(&swkbd, buf, bufsize)\<close> belongs to the system library: it stores the
  typed text in \<open>buf\<close> as a terminated string of at most \<open>bufsize - 1\<close> bytes and returns
  the button.
\<close>

definition swkbdInputText :: "frame_input \<Rightarrow> buffer \<Rightarrow> nat \<Rightarrow> fault + (SwkbdButton \<times> buffer)" where
  "swkbdInputText i buf bufsize =
     (let t = take (bufsize - 1) (cstring (swkbd_text i)) in
      if 0 < bufsize \<and> bufsize \<le> length buf
      then Inr (swkbd_button i, t @ NUL # drop (Suc (length t)) buf)
      else Inl OutOfBounds)"

section \<open>The main loop\<close>

text \<open>
  The "New Note" branch of the menu (\<open>main\<close>, the block under \<open>selectedMenu == 0\<close>):
  \<^verbatim>\<open>
  memset(currentNoteContent, 0, sizeof(currentNoteContent));
  memset(currentNoteTitle, 0, sizeof(currentNoteTitle));
  ...
  SwkbdButton button = swkbdInputText(&swkbd, currentNoteTitle, sizeof(currentNoteTitle));
  if (button == SWKBD_BUTTON_RIGHT && strlen(currentNoteTitle) > 0 && note_count < MAX_NOTES) {
      safe_string_copy(notes[note_count].title, currentNoteTitle, TITLE_LEN);
      notes[note_count].content[0] = '\0';
      save_note(currentNoteTitle, "");
      selectedNote = note_count;
      note_count++;
      mode = MODE_VIEW_NOTE;
  }
  \<close>
\<close>

definition new_note :: "frame_input \<Rightarrow> app_state \<Rightarrow> fault + app_state" where
  "new_note i s =
     (let s1 = s\<lparr>currentNoteContent := replicate NOTE_CONTENT_LEN NUL,
                 currentNoteTitle := replicate TITLE_LEN NUL\<rparr> in
      bind_fault (swkbdInputText i (currentNoteTitle s1) TITLE_LEN) (\<lambda>(button, t).
      let s2 = s1\<lparr>currentNoteTitle := t\<rparr> in
      if button = SWKBD_BUTTON_RIGHT then
        bind_fault (strlen (currentNoteTitle s2)) (\<lambda>title_len.
          if title_len > 0 \<and> note_count s2 < MAX_NOTES then
            bind_fault (array_get (notes_array s2) (note_count s2)) (\<lambda>n.
            bind_fault (safe_string_copy (Some (title n)) (Some (currentNoteTitle s2)) TITLE_LEN) (\<lambda>dest.
            bind_fault (store_byte (content n) 0 NUL) (\<lambda>c.
            bind_fault (save_note (sdmc s2) (currentNoteTitle s2) [NUL]) (\<lambda>fs.
              Inr (s2\<lparr>notes_array := (notes_array s2)[nat (note_count s2) :=
                                  \<lparr>title = pointee (title n) dest, content = c\<rparr>],
                      sdmc := fs,
                      selectedNote := note_count s2,
                      note_count := note_count s2 + 1,
                      mode := MODE_VIEW_NOTE\<rparr>)))))
          else Inr s2)
      else Inr s2))"

text \<open>
  \<^verbatim>\<open>
  if (kDown & KEY_UP)   { selectedMenu = (selectedMenu - 1 + 2) % 2; }
  if (kDown & KEY_DOWN) { selectedMenu = (selectedMenu + 1) % 2; }
  if (kDown & KEY_A) {
      if (selectedMenu == 0) { ... New Note ... }
      else { if (note_count > 0) { mode = MODE_NOTE_LIST; selectedNote = 0; } }
  }
  \<close>
\<close>

definition menu_input :: "frame_input \<Rightarrow> app_state \<Rightarrow> fault + app_state" where
  "menu_input i s =
     (let s1 = (if key_up i then s\<lparr>selectedMenu := (selectedMenu s - 1 + 2) smod 2\<rparr> else s);
          s2 = (if key_down i then s1\<lparr>selectedMenu := (selectedMenu s1 + 1) smod 2\<rparr> else s1)
      in if key_a i then
           (if selectedMenu s2 = 0 then new_note i s2
            else if note_count s2 > 0 then Inr (s2\<lparr>mode := MODE_NOTE_LIST, selectedNote := 0\<rparr>)
            else Inr s2)
         else Inr s2)"

text \<open>
  \<^verbatim>\<open>
  if (kDown & KEY_B)    { mode = MODE_MENU; }
  if (kDown & KEY_UP)   { selectedNote = (selectedNote - 1 + note_count) % note_count; }
  if (kDown & KEY_DOWN) { selectedNote = (selectedNote + 1) % note_count; }
  if (kDown & KEY_A && selectedNote >= 0) { mode = MODE_VIEW_NOTE; }
  \<close>
\<close>

definition note_list_input :: "frame_input \<Rightarrow> app_state \<Rightarrow> fault + app_state" where
  "note_list_input i s =
     (let s1 = (if key_b i then s\<lparr>mode := MODE_MENU\<rparr> else s) in
      bind_fault (if key_up i
                  then bind_fault (c_mod (selectedNote s1 - 1 + note_count s1) (note_count s1))
                         (\<lambda>r. Inr (s1\<lparr>selectedNote := r\<rparr>))
                  else Inr s1) (\<lambda>s2.
      bind_fault (if key_down i
                  then bind_fault (c_mod (selectedNote s2 + 1) (note_count s2))
                         (\<lambda>r. Inr (s2\<lparr>selectedNote := r\<rparr>))
                  else Inr s2) (\<lambda>s3.
      if key_a i \<and> selectedNote s3 \<ge> 0 then Inr (s3\<lparr>mode := MODE_VIEW_NOTE\<rparr>) else Inr s3)))"

text \<open>
  \<^verbatim>\<open>
  if (kDown & KEY_B) {
      mode = MODE_NOTE_LIST;
      if (selectedNote >= note_count) {  // If we were viewing a new note
          mode = MODE_MENU;
      }
  }
  if (kDown & KEY_A) {
      ...
      SwkbdButton button = swkbdInputText(&swkbd, currentNoteContent, sizeof(currentNoteContent));
      if (button == SWKBD_BUTTON_RIGHT) {
          append_to_note(&notes[selectedNote], currentNoteContent);
          save_note(notes[selectedNote].title, notes[selectedNote].content);
      }
  }
  \<close>
\<close>

definition view_note_input :: "frame_input \<Rightarrow> app_state \<Rightarrow> fault + app_state" where
  "view_note_input i s =
     (let s1 = (if key_b i
                then (let sb = s\<lparr>mode := MODE_NOTE_LIST\<rparr> in
                      if selectedNote sb \<ge> note_count sb then sb\<lparr>mode := MODE_MENU\<rparr> else sb)
                else s)
      in if key_a i then
           bind_fault (swkbdInputText i (currentNoteContent s1) NOTE_CONTENT_LEN) (\<lambda>(button, t).
           let s2 = s1\<lparr>currentNoteContent := t\<rparr> in
           if button = SWKBD_BUTTON_RIGHT then
             bind_fault (array_get (notes_array s2) (selectedNote s2)) (\<lambda>n.
             bind_fault (append_to_note (Some n) (Some (currentNoteContent s2))) (\<lambda>p.
             let n' = pointee n p in
             bind_fault (save_note (sdmc s2) (title n') (content n')) (\<lambda>fs.
               Inr (s2\<lparr>notes_array := (notes_array s2)[nat (selectedNote s2) := n'], sdmc := fs\<rparr>))))
           else Inr s2)
         else Inr s1)"

text \<open>
  The input part of one pass of the loop; the drawing code that follows it only reads
  the state.
\<close>

definition frame :: "frame_input \<Rightarrow> app_state \<Rightarrow> fault + app_state" where
  "frame i s =
     (if mode s = MODE_MENU then menu_input i s
      else if mode s = MODE_NOTE_LIST then note_list_input i s
      else if mode s = MODE_VIEW_NOTE then view_note_input i s
      else Inr s)"

text \<open>
  \<^verbatim>\<open>
  while (aptMainLoop()) {
      hidScanInput();
      u32 kDown = hidKeysDown();
      if (mode == MODE_MENU && (kDown & KEY_START)) break;
      ...
  }
  \<close>
  The list holds the inputs of the passes made before \<open>aptMainLoop\<close> returns false.
\<close>

fun main_loop :: "app_state \<Rightarrow> frame_input list \<Rightarrow> fault + app_state" where
  "main_loop s [] = Inr s"
| "main_loop s (i # rest) =
     (if mode s = MODE_MENU \<and> key_start i then Inr s
      else bind_fault (frame i s) (\<lambda>s'. main_loop s' rest))"

text \<open>The static initialisers: zeroed arrays, \<open>note_count = 0\<close>, \<open>selectedNote = -1\<close>.\<close>

definition blank_note :: Note where
  "blank_note = \<lparr>title = replicate TITLE_LEN NUL, content = replicate NOTE_CONTENT_LEN NUL\<rparr>"

definition initial_state :: "filesystem \<Rightarrow> app_state" where
  "initial_state fs =
     \<lparr>notes_array = replicate (nat MAX_NOTES) blank_note,
      note_count = 0,
      selectedMenu = 0,
      selectedNote = -1,
      mode = MODE_MENU,
      currentNoteContent = replicate NOTE_CONTENT_LEN NUL,
      currentNoteTitle = replicate TITLE_LEN NUL,
      sdmc = fs\<rparr>"

definition main :: "filesystem \<Rightarrow> frame_input list \<Rightarrow> fault + app_state" where
  "main fs inputs = bind_fault (load_notes (initial_state fs)) (\<lambda>s. main_loop s inputs)"

section \<open>Well-formed states\<close>

definition note_ok :: "Note \<Rightarrow> bool" where
  "note_ok n \<longleftrightarrow>
     length (title n) = TITLE_LEN \<and> NUL \<in> set (title n) \<and>
     length (content n) = NOTE_CONTENT_LEN \<and> NUL \<in> set (content n)"

definition app_inv :: "app_state \<Rightarrow> bool" where
  "app_inv s \<longleftrightarrow>
     length (notes_array s) = nat MAX_NOTES \<and> list_all note_ok (notes_array s) \<and>
     0 \<le> note_count s \<and> note_count s \<le> MAX_NOTES \<and>
     (selectedMenu s = 0 \<or> selectedMenu s = 1) \<and>
     (selectedNote s = -1 \<or> 0 \<le> selectedNote s \<and> selectedNote s < note_count s) \<and>
     (mode s = MODE_MENU \<or>
      (mode s = MODE_NOTE_LIST \<or> mode s = MODE_VIEW_NOTE) \<and> 0 \<le> selectedNote s) \<and>
     length (currentNoteContent s) = NOTE_CONTENT_LEN \<and>
     length (currentNoteTitle s) = TITLE_LEN"

definition fs_ok :: "filesystem \<Rightarrow> bool" where
  "fs_ok fs \<longleftrightarrow> list_all (\<lambda>e. NUL \<in> set (d_name e)) (dir_entries fs)"

text \<open>The directory entries that the loop of \<open>load_notes\<close> turns into notes.\<close>

definition loadable :: "filesystem \<Rightarrow> dirent \<Rightarrow> bool" where
  "loadable fs e \<longleftrightarrow>
     d_type e = DT_REG \<and> files fs (take 255 (NOTES_DIR @ cstring (d_name e))) \<noteq> None"

section \<open>Observing the store\<close>

text \<open>
  Saving a note and then starting the program on the resulting card, and the notes the
  store then holds, each as its title string and its content string.
\<close>

definition save_and_load :: "filesystem \<Rightarrow> buffer \<Rightarrow> buffer \<Rightarrow> fault + app_state" where
  "save_and_load fs t c = bind_fault (save_note fs t c) (\<lambda>fs'. load_notes (initial_state fs'))"

definition stored_notes :: "app_state \<Rightarrow> (string \<times> string) list" where
  "stored_notes s =
     map (\<lambda>n. (cstring (title n), cstring (content n))) (take (nat (note_count s)) (notes_array s))"

section \<open>Concrete inputs\<close>

text \<open>
  An SD card without the notes directory, and one whose directory holds a regular file
  with the bytes \<open>x\<close> under each of the given names, enumerated in that order.
\<close>

definition empty_card :: filesystem where
  "empty_card = \<lparr>dir_present = False, mkdir_works = True, dir_entries = [],
                  files = Map.empty, writable = (\<lambda>p. True)\<rparr>"

definition card_of :: "string list \<Rightarrow> filesystem" where
  "card_of names =
     \<lparr>dir_present = True, mkdir_works = True,
      dir_entries = map (\<lambda>n. \<lparr>d_name = n @ [NUL], d_type = DT_REG\<rparr>) names,
      files = map_of (map (\<lambda>n. (NOTES_DIR @ n, ''x'')) names),
      writable = (\<lambda>p. True)\<rparr>"

definition ten_names :: "string list" where
  "ten_names = [''n0'', ''n1'', ''n2'', ''n3'', ''n4'', ''n5'', ''n6'', ''n7'', ''n8'', ''n9'']"

text \<open>Passes of the loop: no key, A with text accepted on the keyboard, B, up, down.\<close>

definition no_keys :: frame_input where
  "no_keys = \<lparr>key_start = False, key_up = False, key_down = False, key_a = False,
              key_b = False, swkbd_button = SWKBD_BUTTON_NONE, swkbd_text = []\<rparr>"

definition confirm_text :: "string \<Rightarrow> frame_input" where
  "confirm_text txt = no_keys\<lparr>key_a := True, swkbd_button := SWKBD_BUTTON_RIGHT, swkbd_text := txt\<rparr>"

definition back_key :: frame_input where
  "back_key = no_keys\<lparr>key_b := True\<rparr>"

definition up_key :: frame_input where
  "up_key = no_keys\<lparr>key_up := True\<rparr>"

definition down_key :: frame_input where
  "down_key = no_keys\<lparr>key_down := True\<rparr>"

text \<open>A state in the note list with three notes and the selection at \<open>k\<close>.\<close>

definition three_notes_at :: "int \<Rightarrow> app_state" where
  "three_notes_at k =
     (initial_state empty_card)\<lparr>mode := MODE_NOTE_LIST, note_count := 3, selectedNote := k\<rparr>"

section \<open>Facts about strings in buffers\<close>

lemma strlen_Inr: "NUL \<in> set s \<Longrightarrow> strlen s = Inr (length (cstring s))"
  by (simp add: strlen_def cstring_def)

lemma cstring_length_lt: "NUL \<in> set s \<Longrightarrow> length (cstring s) < length s"
  by (induction s) (auto simp: cstring_def)

lemma cstring_no_NUL: "NUL \<notin> set (cstring s)"
  by (induction s) (auto simp: cstring_def)

lemma cstring_eq_take: "cstring s = take (length (cstring s)) s"
  unfolding cstring_def by (rule takeWhile_eq_take)

lemma cstring_append_NUL: "NUL \<notin> set xs \<Longrightarrow> cstring (xs @ NUL # ys) = xs"
  by (induction xs) (auto simp: cstring_def)

lemma take_cstring: "k \<le> length (cstring s) \<Longrightarrow> take k s = take k (cstring s)"
proof -
  assume k: "k \<le> length (cstring s)"
  have "take k (cstring s) = take k (take (length (cstring s)) s)"
    using cstring_eq_take [of s] by simp
  also have "\<dots> = take k s" using k by (simp add: min_absorb1)
  finally show ?thesis by simp
qed

lemma safe_string_copy_Some:
  assumes s: "NUL \<in> set s" and c: "0 < c" "c \<le> length d"
  shows "safe_string_copy (Some d) (Some s) c =
     Inr (Some (take (min (length (cstring s)) (c - 1)) (cstring s)
                @ NUL # drop (Suc (min (length (cstring s)) (c - 1))) d))"
proof -
  let ?k = "min (length (cstring s)) (c - 1)"
  have ks: "?k \<le> length s" using cstring_length_lt [OF s] by simp
  have kd: "?k < length d" using c by simp
  have cp: "memcpy d s ?k = Inr (take ?k s @ drop ?k d)"
    using ks kd by (simp add: memcpy_def)
  have len: "length (take ?k s) = ?k" using ks by simp
  have st: "store_byte (take ?k s @ drop ?k d) ?k NUL = Inr (take ?k s @ NUL # drop (Suc ?k) d)"
  proof -
    have "(take ?k s @ drop ?k d)[?k := NUL] = take ?k s @ (drop ?k d)[0 := NUL]"
      using len by (metis list_update_append diff_self_eq_0 less_irrefl)
    moreover have "drop ?k d = d ! ?k # drop (Suc ?k) d"
      using kd by (simp add: Cons_nth_drop_Suc)
    ultimately have "(take ?k s @ drop ?k d)[?k := NUL] = take ?k s @ NUL # drop (Suc ?k) d"
      by simp
    moreover have "?k < length (take ?k s @ drop ?k d)" using kd ks by simp
    ultimately show ?thesis by (simp add: store_byte_def)
  qed
  have tk: "take ?k s = take ?k (cstring s)" by (rule take_cstring) simp
  have "safe_string_copy (Some d) (Some s) c =
          bind_fault (memcpy d s ?k) (\<lambda>d1. bind_fault (store_byte d1 ?k NUL) (\<lambda>d2. Inr (Some d2)))"
    using c by (cases "length (cstring s) < c - 1")
      (auto simp add: safe_string_copy_def strlen_Inr [OF s] bind_fault_def min_def Let_def split: sum.splits)
  also have "\<dots> = Inr (Some (take ?k s @ NUL # drop (Suc ?k) d))"
    by (simp only: cp st bind_fault_def sum.case)
  finally show ?thesis by (simp only: tk)
qed

section \<open>The truncating copy\<close>

text \<open>
  Claim C3, as amended. Let the destination have at least \<open>c\<close> bytes and the source be
  terminated. Then \<open>safe_string_copy\<close> returns without a fault, keeps the length of the
  destination array and leaves every byte from index \<open>c\<close> on as it was. When \<open>c\<close> is
  positive, the destination then holds the first \<open>c - 1\<close> bytes of the source string (so
  at most \<open>c - 1\<close> bytes), followed by a terminator; it holds the source string itself
  when that is shorter than \<open>c\<close>, and the empty string when the source is empty. When \<open>c\<close>
  is zero, the destination is left exactly as it was.
\<close>

theorem safe_string_copy_truncates:
  assumes s: "NUL \<in> set s" and c: "c \<le> length d"
  shows "\<exists>d'. safe_string_copy (Some d) (Some s) c = Inr (Some d')
           \<and> length d' = length d \<and> drop c d' = drop c d
           \<and> (c = 0 \<longrightarrow> d' = d)
           \<and> (0 < c \<longrightarrow> cstring d' = take (c - 1) (cstring s)
                \<and> length (cstring d') \<le> c - 1
                \<and> d' ! length (cstring d') = NUL
                \<and> (length (cstring s) < c \<longrightarrow> cstring d' = cstring s)
                \<and> (cstring s = [] \<longrightarrow> cstring d' = []))"
proof (cases "c = 0")
  case True
  then show ?thesis by (simp add: safe_string_copy_def)
next
  case False
  define k where "k = min (length (cstring s)) (c - 1)"
  define p where "p = take k (cstring s)"
  define d' where "d' = p @ NUL # drop (Suc k) d"
  from False have pos: "0 < c" by simp
  have run: "safe_string_copy (Some d) (Some s) c = Inr (Some d')"
    unfolding d'_def p_def k_def by (rule safe_string_copy_Some [OF s pos c])
  have lp: "length p = k" by (simp add: p_def k_def)
  have kc: "Suc k \<le> c" using pos by (simp add: k_def)
  have kd: "k < length d" using kc c by simp
  have p: "p = take (c - 1) (cstring s)" by (simp add: p_def k_def min_def)
  have nn: "NUL \<notin> set p" using cstring_no_NUL [of s] by (auto simp: p_def dest: in_set_takeD)
  have cs: "cstring d' = p" unfolding d'_def by (rule cstring_append_NUL [OF nn])
  have len: "length d' = length d" using kd by (simp add: d'_def lp)
  have dr: "drop c d' = drop c d"
  proof -
    obtain m where m: "c = Suc k + m" using kc le_Suc_ex by blast
    show ?thesis by (simp add: d'_def lp m add.commute)
  qed
  have zterm: "d' ! length (cstring d') = NUL"
    unfolding cs unfolding d'_def by simp
  have small: "length (cstring s) < c \<longrightarrow> p = cstring s" by (auto simp: p)
  have empty: "cstring s = [] \<longrightarrow> p = []" by (simp add: p)
  have bound: "length p \<le> c - 1" by (simp add: lp k_def)
  show ?thesis
    using run len dr zterm pos p cs small empty bound by auto
qed

theorem safe_string_copy_truncates_witness:
  "(case safe_string_copy (Some ''hello'') (Some (''abcdefg'' @ [NUL])) 5 of
      Inr (Some d') \<Rightarrow> cstring d' = ''abcd'' \<and> length d' = 5
    | _ \<Rightarrow> False)
   \<and> (case safe_string_copy (Some ''hello world'') (Some (''ab'' @ [NUL])) 5 of
      Inr (Some d') \<Rightarrow> cstring d' = ''ab'' \<and> drop 5 d' = '' world''
    | _ \<Rightarrow> False)"
  using safe_string_copy_truncates [of "''abcdefg'' @ [NUL]" 5 "''hello''"]
    safe_string_copy_truncates [of "''ab'' @ [NUL]" 5 "''hello world''"]
  by (auto simp: cstring_def)

text \<open>
  With capacity zero nothing is written: a destination that held \<open>abc\<close> still holds
  \<open>abc\<close> after the call, so the result is not the empty string.
\<close>

theorem safe_string_copy_zero_capacity_counterexample:
  "safe_string_copy (Some (''abc'' @ [NUL])) (Some (''x'' @ [NUL])) 0 = Inr (Some (''abc'' @ [NUL]))
   \<and> cstring (''abc'' @ [NUL]) = ''abc''"
  by (simp add: safe_string_copy_def cstring_def)

section \<open>Appending a line\<close>

lemma take_Suc_update: "L < length c \<Longrightarrow> take (Suc L) (c[L := x]) = take L c @ [x]"
  by (simp add: take_Suc_conv_app_nth)

lemma append_to_note_full:
  assumes "NUL \<in> set (content n)" "NUL \<in> set new"
    and "NOTE_CONTENT_LEN \<le> length (cstring (content n)) + length (cstring new) + 2"
  shows "append_to_note (Some n) (Some new) = Inr (Some n)"
  using assms by (simp add: append_to_note_def strlen_Inr bind_fault_def)

lemma append_to_note_first:
  assumes len: "length (content n) = NOTE_CONTENT_LEN"
    and c: "NUL \<in> set (content n)" and s: "NUL \<in> set new"
    and room: "length (cstring (content n)) + length (cstring new) + 2 < NOTE_CONTENT_LEN"
    and L: "length (cstring (content n)) = 0"
  shows "append_to_note (Some n) (Some new) =
     Inr (Some (n\<lparr>content := cstring new @ NUL # drop (Suc (length (cstring new))) (content n)\<rparr>))"
proof -
  have k: "min (length (cstring new)) (NOTE_CONTENT_LEN - 1) = length (cstring new)"
    using room by simp
  have "safe_string_copy (Some (content n)) (Some new) NOTE_CONTENT_LEN =
          Inr (Some (cstring new @ NUL # drop (Suc (length (cstring new))) (content n)))"
    using safe_string_copy_Some [OF s, of NOTE_CONTENT_LEN "content n"] len room
    by (simp add: k)
  then show ?thesis
    using room L
    by (simp add: append_to_note_def strlen_Inr [OF c] strlen_Inr [OF s] bind_fault_def pointee_def)
qed

lemma append_to_note_next:
  assumes len: "length (content n) = NOTE_CONTENT_LEN"
    and c: "NUL \<in> set (content n)" and s: "NUL \<in> set new"
    and room: "length (cstring (content n)) + length (cstring new) + 2 < NOTE_CONTENT_LEN"
    and L: "0 < length (cstring (content n))"
  shows "append_to_note (Some n) (Some new) =
     Inr (Some (n\<lparr>content := cstring (content n) @ newline # cstring new
        @ NUL # drop (length (cstring (content n)) + length (cstring new) + 2) (content n)\<rparr>))"
proof -
  let ?L = "length (cstring (content n))" and ?N = "length (cstring new)"
  let ?c = "(content n)[?L := newline]"
  have Llt: "?L < length (content n)" by (rule cstring_length_lt [OF c])
  have st: "store_byte (content n) ?L newline = Inr ?c"
    using Llt by (simp add: store_byte_def)
  have k: "min ?N (NOTE_CONTENT_LEN - Suc ?L - 1) = ?N"
    using room by simp
  have cap: "0 < NOTE_CONTENT_LEN - Suc ?L"
    "NOTE_CONTENT_LEN - Suc ?L \<le> length (drop (Suc ?L) (content n))"
    using room len by simp_all
  have "safe_string_copy (Some (drop (Suc ?L) (content n))) (Some new) (NOTE_CONTENT_LEN - Suc ?L) =
          Inr (Some (cstring new @ NUL # drop (Suc ?N) (drop (Suc ?L) (content n))))"
    using safe_string_copy_Some [OF s cap] by (simp only: k) simp
  moreover have "drop (Suc ?N) (drop (Suc ?L) (content n)) = drop (Suc (Suc (?L + ?N))) (content n)"
    by (simp add: add.commute)
  ultimately have cp:
    "safe_string_copy (Some (drop (Suc ?L) (content n))) (Some new) (NOTE_CONTENT_LEN - Suc ?L) =
          Inr (Some (cstring new @ NUL # drop (Suc (Suc (?L + ?N))) (content n)))"
    by (simp only:)
  have tk: "take (Suc ?L) ?c = cstring (content n) @ [newline]"
    using take_Suc_update [OF Llt] cstring_eq_take [of "content n"] by simp
  show ?thesis
    using room L
    by (simp add: append_to_note_def strlen_Inr [OF c] strlen_Inr [OF s] bind_fault_def st cp tk
        pointee_def)
qed

text \<open>
  Claim C2. Let the content array of a note have \<open>NOTE_CONTENT_LEN\<close> bytes and hold a
  string of length \<open>L\<close>, and let the text to append be a string of length \<open>N\<close>. Then
  \<open>append_to_note\<close> returns without a fault and leaves the title alone. If
  \<open>L + N + 2 < NOTE_CONTENT_LEN\<close>, the content afterwards is the old content, then one
  newline when \<open>L > 0\<close>, then the whole text. Otherwise the content array is unchanged
  byte for byte; this is the case for \<open>L = 1020\<close> and \<open>N = 3\<close>.
\<close>

theorem append_to_note_spec:
  assumes len: "length (content n) = NOTE_CONTENT_LEN"
    and c: "NUL \<in> set (content n)" and s: "NUL \<in> set new"
  shows "\<exists>n'. append_to_note (Some n) (Some new) = Inr (Some n')
      \<and> title n' = title n \<and> length (content n') = NOTE_CONTENT_LEN
      \<and> (length (cstring (content n)) + length (cstring new) + 2 < NOTE_CONTENT_LEN \<longrightarrow>
           cstring (content n') =
             cstring (content n) @ (if 0 < length (cstring (content n)) then [newline] else [])
               @ cstring new)
      \<and> (\<not> length (cstring (content n)) + length (cstring new) + 2 < NOTE_CONTENT_LEN \<longrightarrow>
           content n' = content n)
      \<and> (length (cstring (content n)) = 1020 \<and> length (cstring new) = 3 \<longrightarrow>
           content n' = content n)"
proof -
  let ?L = "length (cstring (content n))" and ?N = "length (cstring new)"
  consider (full) "NOTE_CONTENT_LEN \<le> ?L + ?N + 2"
    | (first) "?L + ?N + 2 < NOTE_CONTENT_LEN" "?L = 0"
    | (nxt) "?L + ?N + 2 < NOTE_CONTENT_LEN" "0 < ?L"
    by linarith
  then show ?thesis
  proof cases
    case full
    have "append_to_note (Some n) (Some new) = Inr (Some n)"
      by (rule append_to_note_full [OF c s full])
    with full len show ?thesis by simp
  next
    case first
    define c' where "c' = cstring new @ NUL # drop (Suc ?N) (content n)"
    have run: "append_to_note (Some n) (Some new) = Inr (Some (n\<lparr>content := c'\<rparr>))"
      unfolding c'_def by (rule append_to_note_first [OF len c s first])
    have cs: "cstring c' = cstring new"
      unfolding c'_def by (rule cstring_append_NUL [OF cstring_no_NUL])
    have ln: "length c' = NOTE_CONTENT_LEN" using first len by (simp add: c'_def)
    have old: "cstring (content n) = []" using first by simp
    have not1020: "?L \<noteq> 1020" using first by simp
    have "cstring c' = cstring (content n) @ (if 0 < ?L then [newline] else []) @ cstring new"
      using cs old by simp
    with run ln first(1) not1020 show ?thesis by auto
  next
    case nxt
    define c' where
      "c' = cstring (content n) @ newline # cstring new @ NUL # drop (?L + ?N + 2) (content n)"
    have run: "append_to_note (Some n) (Some new) = Inr (Some (n\<lparr>content := c'\<rparr>))"
      unfolding c'_def by (rule append_to_note_next [OF len c s nxt])
    have "NUL \<notin> set (cstring (content n) @ newline # cstring new)"
      using cstring_no_NUL [of "content n"] cstring_no_NUL [of new] by simp
    from cstring_append_NUL [OF this, of "drop (?L + ?N + 2) (content n)"]
    have cs: "cstring c' = cstring (content n) @ newline # cstring new" by (simp add: c'_def)
    have ln: "length c' = NOTE_CONTENT_LEN" using nxt len by (simp add: c'_def)
    have not1020: "\<not> (?L = 1020 \<and> ?N = 3)" using nxt by (auto simp: NOTE_CONTENT_LEN_def)
    have "cstring c' = cstring (content n) @ (if 0 < ?L then [newline] else []) @ cstring new"
      using cs nxt(2) by simp
    with run ln nxt(1) not1020 show ?thesis by auto
  qed
qed

theorem append_to_note_spec_witness:
  "(case append_to_note (Some \<lparr>title = ''todo'' @ replicate 28 NUL,
                               content = ''buy milk'' @ replicate 1016 NUL\<rparr>)
                       (Some (''call mom'' @ [NUL])) of
      Inr (Some n') \<Rightarrow> cstring (content n') = ''buy milk'' @ [newline] @ ''call mom''
    | _ \<Rightarrow> False)
   \<and> append_to_note (Some \<lparr>title = ''todo'' @ replicate 28 NUL,
                            content = replicate 1020 (CHR ''a'') @ NUL # replicate 3 NUL\<rparr>)
                    (Some (''xyz'' @ [NUL]))
       = Inr (Some \<lparr>title = ''todo'' @ replicate 28 NUL,
                    content = replicate 1020 (CHR ''a'') @ NUL # replicate 3 NUL\<rparr>)"
proof -
  let ?b = "\<lparr>title = ''todo'' @ replicate 28 NUL, content = ''buy milk'' @ replicate 1016 NUL\<rparr>"
  let ?f = "\<lparr>title = ''todo'' @ replicate 28 NUL,
             content = replicate 1020 (CHR ''a'') @ NUL # replicate 3 NUL\<rparr>"
  have b: "length (content ?b) = NOTE_CONTENT_LEN" "NUL \<in> set (content ?b)"
    and f: "length (content ?f) = NOTE_CONTENT_LEN" "NUL \<in> set (content ?f)"
    and t: "NUL \<in> set (''call mom'' @ [NUL])" "NUL \<in> set (''xyz'' @ [NUL])"
    by (simp_all add: NOTE_CONTENT_LEN_def)
  have lb: "cstring (content ?b) = ''buy milk''" "cstring (''call mom'' @ [NUL]) = ''call mom''"
    by (simp_all add: cstring_def)
  have lf: "length (cstring (content ?f)) = 1020" "length (cstring (''xyz'' @ [NUL])) = 3"
    by (simp_all add: cstring_append_NUL) (simp add: cstring_def)
  from append_to_note_spec [OF b t(1)] lb
  have "case append_to_note (Some ?b) (Some (''call mom'' @ [NUL])) of
      Inr (Some n') \<Rightarrow> cstring (content n') = ''buy milk'' @ [newline] @ ''call mom''
    | _ \<Rightarrow> False"
    by (auto simp: NOTE_CONTENT_LEN_def)
  moreover from append_to_note_spec [OF f t(2)] lf
  have "append_to_note (Some ?f) (Some (''xyz'' @ [NUL])) = Inr (Some ?f)"
    by (auto simp: NOTE_CONTENT_LEN_def)
  ultimately show ?thesis by simp 
qed

section \<open>One pass of the main loop keeps the state well formed\<close>

lemma safe_string_copy_ok:
  assumes s: "NUL \<in> set s" and c: "0 < c" "c \<le> length d"
  shows "\<exists>d'. safe_string_copy (Some d) (Some s) c = Inr (Some d')
           \<and> length d' = length d \<and> NUL \<in> set d' \<and> cstring d' = take (c - 1) (cstring s)"
proof -
  define k where "k = min (length (cstring s)) (c - 1)"
  define p where "p = take k (cstring s)"
  define d' where "d' = p @ NUL # drop (Suc k) d"
  have run: "safe_string_copy (Some d) (Some s) c = Inr (Some d')"
    unfolding d'_def p_def k_def by (rule safe_string_copy_Some [OF s c])
  have lp: "length p = k" by (simp add: p_def k_def)
  have kd: "k < length d" using c by (simp add: k_def)
  have p: "p = take (c - 1) (cstring s)" by (simp add: p_def k_def min_def)
  have nn: "NUL \<notin> set p" using cstring_no_NUL [of s] by (auto simp: p_def dest: in_set_takeD)
  have cs: "cstring d' = p" unfolding d'_def by (rule cstring_append_NUL [OF nn])
  have len: "length d' = length d" using kd by (simp add: d'_def lp)
  have "NUL \<in> set d'" by (simp add: d'_def)
  with run len cs p show ?thesis by simp
qed

lemma append_to_note_ok:
  assumes n: "note_ok n" and s: "NUL \<in> set new"
  shows "\<exists>n'. append_to_note (Some n) (Some new) = Inr (Some n') \<and> note_ok n' \<and> title n' = title n
     \<and> (NOTE_CONTENT_LEN \<le> length (cstring (content n)) + length (cstring new) + 2 \<longrightarrow> n' = n)"
proof -
  let ?L = "length (cstring (content n))" and ?N = "length (cstring new)"
  from n have len: "length (content n) = NOTE_CONTENT_LEN" and c: "NUL \<in> set (content n)"
    by (simp_all add: note_ok_def)
  consider (full) "NOTE_CONTENT_LEN \<le> ?L + ?N + 2"
    | (first) "?L + ?N + 2 < NOTE_CONTENT_LEN" "?L = 0"
    | (nxt) "?L + ?N + 2 < NOTE_CONTENT_LEN" "0 < ?L"
    by linarith
  then show ?thesis
  proof cases
    case full
    from append_to_note_full [OF c s full] n show ?thesis by simp
  next
    case first
    from append_to_note_first [OF len c s first] n first len show ?thesis
      by (simp add: note_ok_def)
  next
    case nxt
    from append_to_note_next [OF len c s nxt] n nxt len show ?thesis
      by (simp add: note_ok_def)
  qed
qed

lemma snprintf_filepath_ok:
  "NUL \<in> set t \<Longrightarrow> snprintf_filepath t = Inr (take 255 (NOTES_DIR @ cstring t))"
proof -
  assume t: "NUL \<in> set t"
  have "take (length (cstring t)) t = cstring t" using cstring_eq_take [of t] by simp
  then show ?thesis
    by (simp only: snprintf_filepath_def strlen_Inr [OF t] bind_fault_def sum.case)
qed

lemma save_note_ok:
  assumes "NUL \<in> set t" "NUL \<in> set c"
  shows "\<exists>fs'. save_note fs t c = Inr fs'"
  using assms
  by (simp add: save_note_def snprintf_filepath_ok strlen_Inr bind_fault_def Let_def
      split: option.splits)

lemma swkbdInputText_ok:
  assumes "0 < n" "length buf = n"
  shows "\<exists>b. swkbdInputText i buf n = Inr (swkbd_button i, b) \<and> length b = n \<and> NUL \<in> set b
            \<and> cstring b = take (n - 1) (cstring (swkbd_text i))"
proof -
  define t where "t = take (n - 1) (cstring (swkbd_text i))"
  have nn: "NUL \<notin> set t" using cstring_no_NUL [of "swkbd_text i"]
    by (auto simp: t_def dest: in_set_takeD)
  have lt: "length t < n" using assms(1) by (simp add: t_def)
  have "swkbdInputText i buf n = Inr (swkbd_button i, t @ NUL # drop (Suc (length t)) buf)"
    using assms by (simp add: swkbdInputText_def t_def Let_def)
  moreover have "length (t @ NUL # drop (Suc (length t)) buf) = n" using lt assms by simp
  moreover have "cstring (t @ NUL # drop (Suc (length t)) buf) = t"
    by (rule cstring_append_NUL [OF nn])
  ultimately show ?thesis by (simp add: t_def)
qed

lemma array_get_ok:
  "0 \<le> i \<Longrightarrow> i < int (length a) \<Longrightarrow> array_get a i = Inr (a ! nat i)"
  by (simp add: array_get_def)

lemma list_all_update:
  "list_all P xs \<Longrightarrow> P x \<Longrightarrow> list_all P (xs[i := x])"
  by (auto simp: list_all_iff dest: set_update_subset_insert [THEN subsetD])

lemma new_note_step:
  assumes inv: "app_inv s"
  shows "\<exists>s'. new_note i s = Inr s' \<and> app_inv s'
     \<and> selectedMenu s' = selectedMenu s
     \<and> ((mode s' = mode s \<and> note_count s' = note_count s \<and> selectedNote s' = selectedNote s
          \<and> notes_array s' = notes_array s)
        \<or> (swkbd_button i = SWKBD_BUTTON_RIGHT \<and> note_count s < MAX_NOTES
            \<and> mode s' = MODE_VIEW_NOTE \<and> note_count s' = note_count s + 1
            \<and> selectedNote s' = note_count s))"
proof -
  define s1 where "s1 = s\<lparr>currentNoteContent := replicate NOTE_CONTENT_LEN NUL,
                 currentNoteTitle := replicate TITLE_LEN NUL\<rparr>"
  obtain t where kb: "swkbdInputText i (currentNoteTitle s1) TITLE_LEN = Inr (swkbd_button i, t)"
    and lt: "length t = TITLE_LEN" and nt: "NUL \<in> set t"
    using swkbdInputText_ok [of TITLE_LEN "currentNoteTitle s1" i]
    by (auto simp: s1_def TITLE_LEN_def)
  define s2 where "s2 = s1\<lparr>currentNoteTitle := t\<rparr>"
  have inv2: "app_inv s2" using inv lt by (simp add: app_inv_def s2_def s1_def)
  have unf: "new_note i s =
      (if swkbd_button i = SWKBD_BUTTON_RIGHT then
        bind_fault (strlen (currentNoteTitle s2)) (\<lambda>title_len.
          if title_len > 0 \<and> note_count s2 < MAX_NOTES then
            bind_fault (array_get (notes_array s2) (note_count s2)) (\<lambda>n.
            bind_fault (safe_string_copy (Some (title n)) (Some (currentNoteTitle s2)) TITLE_LEN) (\<lambda>dest.
            bind_fault (store_byte (content n) 0 NUL) (\<lambda>c.
            bind_fault (save_note (sdmc s2) (currentNoteTitle s2) [NUL]) (\<lambda>fs.
              Inr (s2\<lparr>notes_array := (notes_array s2)[nat (note_count s2) :=
                                  \<lparr>title = pointee (title n) dest, content = c\<rparr>],
                      sdmc := fs,
                      selectedNote := note_count s2,
                      note_count := note_count s2 + 1,
                      mode := MODE_VIEW_NOTE\<rparr>)))))
          else Inr s2)
      else Inr s2)"
    unfolding new_note_def s1_def [symmetric] Let_def kb bind_fault_def [of "Inr _"] sum.case
      prod.case s2_def [symmetric] ..
  have same: "selectedMenu s2 = selectedMenu s" "mode s2 = mode s" "note_count s2 = note_count s"
    "selectedNote s2 = selectedNote s" "notes_array s2 = notes_array s" "sdmc s2 = sdmc s"
    by (simp_all add: s2_def s1_def)
  show ?thesis
  proof (cases "swkbd_button i = SWKBD_BUTTON_RIGHT \<and> 0 < length (cstring t) \<and> note_count s < MAX_NOTES")
    case False
    then have "new_note i s = Inr s2"
      using nt same by (auto simp: unf strlen_Inr bind_fault_def s2_def)
    with inv2 same show ?thesis by simp
  next
    case True
    define n where "n = notes_array s ! nat (note_count s)"
    have idx: "0 \<le> note_count s" "note_count s < int (length (notes_array s))"
      "nat (note_count s) < length (notes_array s)"
      using inv True by (auto simp: app_inv_def MAX_NOTES_def)
    have nok: "note_ok n" using inv idx(3) by (simp add: app_inv_def n_def list_all_length)
    obtain d where cp: "safe_string_copy (Some (title n)) (Some t) TITLE_LEN = Inr (Some d)"
      and ld: "length d = TITLE_LEN" and nd: "NUL \<in> set d"
      using safe_string_copy_ok [OF nt, of TITLE_LEN "title n"] nok
      by (auto simp: note_ok_def TITLE_LEN_def)
    have st: "store_byte (content n) 0 NUL = Inr ((content n)[0 := NUL])"
      using nok by (simp add: store_byte_def note_ok_def NOTE_CONTENT_LEN_def)
    obtain fs where sv: "save_note (sdmc s) t [NUL] = Inr fs"
      using save_note_ok [OF nt, of "[NUL]"] by auto
    define s' where "s' = s2\<lparr>notes_array := (notes_array s2)[nat (note_count s2) :=
                                  \<lparr>title = d, content = (content n)[0 := NUL]\<rparr>],
                      sdmc := fs,
                      selectedNote := note_count s2,
                      note_count := note_count s2 + 1,
                      mode := MODE_VIEW_NOTE\<rparr>"
    have t2: "currentNoteTitle s2 = t" by (simp add: s2_def)
    have run: "new_note i s = Inr s'"
      using True same
      by (simp add: unf t2 strlen_Inr [OF nt] bind_fault_def array_get_ok [OF idx(1,2)]
          n_def [symmetric] cp st sv pointee_def s'_def)
    have nok': "note_ok \<lparr>title = d, content = (content n)[0 := NUL]\<rparr>"
      using nok ld nd by (auto simp: note_ok_def NOTE_CONTENT_LEN_def set_update_memI)
    have "app_inv s'"
      using inv2 True same nok' 
      by (auto simp: app_inv_def s'_def list_all_update)
    with run True same show ?thesis by (simp add: s'_def)
  qed
qed

lemma smod_nonneg: "0 \<le> a \<Longrightarrow> 0 < b \<Longrightarrow> a smod b = a mod (b::int)"
  by (simp add: smod_int_alt_def sgn_if)

lemma menu_input_step:
  assumes inv: "app_inv s" and m: "mode s = MODE_MENU"
  shows "\<exists>s'. menu_input i s = Inr s' \<and> app_inv s'
     \<and> ((note_count s' = note_count s \<and> notes_array s' = notes_array s
          \<and> mode s' \<noteq> MODE_VIEW_NOTE)
        \<or> (note_count s < MAX_NOTES \<and> note_count s' = note_count s + 1
            \<and> mode s' = MODE_VIEW_NOTE \<and> selectedNote s' = note_count s))"
proof -
  define s1 where "s1 = (if key_up i then s\<lparr>selectedMenu := (selectedMenu s - 1 + 2) smod 2\<rparr> else s)"
  define s2 where "s2 = (if key_down i then s1\<lparr>selectedMenu := (selectedMenu s1 + 1) smod 2\<rparr> else s1)"
  have inv1: "app_inv s1" using inv by (auto simp: s1_def app_inv_def smod_nonneg)
  have inv2: "app_inv s2" using inv1 by (auto simp: s2_def app_inv_def smod_nonneg)
  have same: "note_count s2 = note_count s" "mode s2 = MODE_MENU" "notes_array s2 = notes_array s"
    using m by (simp_all add: s2_def s1_def)
  have unf: "menu_input i s =
      (if key_a i then
           (if selectedMenu s2 = 0 then new_note i s2
            else if note_count s2 > 0 then Inr (s2\<lparr>mode := MODE_NOTE_LIST, selectedNote := 0\<rparr>)
            else Inr s2)
         else Inr s2)"
    unfolding menu_input_def s1_def [symmetric] Let_def s2_def [symmetric] ..
  consider (idle) "\<not> key_a i \<or> selectedMenu s2 \<noteq> 0 \<and> \<not> note_count s2 > 0"
    | (new) "key_a i" "selectedMenu s2 = 0"
    | (list) "key_a i" "selectedMenu s2 \<noteq> 0" "note_count s2 > 0"
    by blast
  then show ?thesis
  proof cases
    case idle
    then have "menu_input i s = Inr s2" by (auto simp: unf)
    with inv2 same show ?thesis by simp
  next
    case new
    then have "menu_input i s = new_note i s2" by (simp add: unf)
    with new_note_step [OF inv2, of i] same show ?thesis by auto
  next
    case list
    then have "menu_input i s = Inr (s2\<lparr>mode := MODE_NOTE_LIST, selectedNote := 0\<rparr>)"
      by (simp add: unf)
    moreover have "app_inv (s2\<lparr>mode := MODE_NOTE_LIST, selectedNote := 0\<rparr>)"
      using inv2 list by (simp add: app_inv_def)
    ultimately show ?thesis using same by simp
  qed
qed

lemma note_list_input_step:
  assumes inv: "app_inv s" and m: "mode s = MODE_NOTE_LIST"
  shows "\<exists>s'. note_list_input i s = Inr s' \<and> app_inv s' \<and> note_count s' = note_count s
     \<and> notes_array s' = notes_array s
     \<and> (key_up i \<and> \<not> key_down i \<longrightarrow>
           selectedNote s' = (selectedNote s - 1 + note_count s) mod note_count s)
     \<and> (key_down i \<and> \<not> key_up i \<longrightarrow>
           selectedNote s' = (selectedNote s + 1) mod note_count s)
     \<and> (\<not> key_down i \<and> \<not> key_up i \<longrightarrow> selectedNote s' = selectedNote s)"
proof -
  from inv m have sel: "0 \<le> selectedNote s" "selectedNote s < note_count s"
    by (auto simp: app_inv_def)
  then have pos: "0 < note_count s" by simp
  define s1 where "s1 = (if key_b i then s\<lparr>mode := MODE_MENU\<rparr> else s)"
  define s2 where "s2 = (if key_up i
       then s1\<lparr>selectedNote := (selectedNote s1 - 1 + note_count s1) mod note_count s1\<rparr> else s1)"
  define s3 where "s3 = (if key_down i
       then s2\<lparr>selectedNote := (selectedNote s2 + 1) mod note_count s2\<rparr> else s2)"
  define s4 where "s4 = (if key_a i \<and> selectedNote s3 \<ge> 0 then s3\<lparr>mode := MODE_VIEW_NOTE\<rparr> else s3)"
  have c1: "note_count s1 = note_count s" "selectedNote s1 = selectedNote s"
    by (simp_all add: s1_def)
  have inv1: "app_inv s1 \<and> 0 \<le> selectedNote s1 \<and> selectedNote s1 < note_count s1"
    using inv sel by (simp add: s1_def app_inv_def)
  have c2: "note_count s2 = note_count s" by (simp add: s2_def c1)
  have sel2: "0 \<le> selectedNote s2 \<and> selectedNote s2 < note_count s2"
    using inv1 pos c1 by (simp add: s2_def)
  have inv2: "app_inv s2" using inv1 sel2 by (auto simp: s2_def app_inv_def)
  have c3: "note_count s3 = note_count s" by (simp add: s3_def c2)
  have sel3: "0 \<le> selectedNote s3 \<and> selectedNote s3 < note_count s3"
    using sel2 pos c2 by (simp add: s3_def)
  have inv3: "app_inv s3" using inv2 sel3 by (auto simp: s3_def app_inv_def)
  have inv4: "app_inv s4" using inv3 sel3 by (auto simp: s4_def app_inv_def)
  have up: "(if key_up i
                  then bind_fault (c_mod (selectedNote s1 - 1 + note_count s1) (note_count s1))
                         (\<lambda>r. Inr (s1\<lparr>selectedNote := r\<rparr>))
                  else Inr s1) = Inr s2"
    using inv1 pos c1 by (simp add: s2_def c_mod_def bind_fault_def smod_nonneg)
  have down: "(if key_down i
                  then bind_fault (c_mod (selectedNote s2 + 1) (note_count s2))
                         (\<lambda>r. Inr (s2\<lparr>selectedNote := r\<rparr>))
                  else Inr s2) = Inr s3"
    using sel2 pos c2 by (simp add: s3_def c_mod_def bind_fault_def smod_nonneg)
  have run: "note_list_input i s = Inr s4"
    unfolding note_list_input_def s1_def [symmetric] Let_def up bind_fault_def [of "Inr _"] sum.case
      down
    by (simp add: s4_def)
  have frame: "note_count s4 = note_count s" "notes_array s4 = notes_array s"
    by (simp_all add: s4_def s3_def s2_def s1_def)
  have selv: "key_up i \<and> \<not> key_down i \<longrightarrow>
           selectedNote s4 = (selectedNote s - 1 + note_count s) mod note_count s"
    "key_down i \<and> \<not> key_up i \<longrightarrow> selectedNote s4 = (selectedNote s + 1) mod note_count s"
    "\<not> key_down i \<and> \<not> key_up i \<longrightarrow> selectedNote s4 = selectedNote s"
    by (simp_all add: s4_def s3_def s2_def s1_def)
  from run inv4 frame selv show ?thesis by simp
qed

lemma view_note_input_step:
  assumes inv: "app_inv s" and m: "mode s = MODE_VIEW_NOTE"
  shows "\<exists>s'. view_note_input i s = Inr s' \<and> app_inv s'
     \<and> note_count s' = note_count s \<and> selectedNote s' = selectedNote s
     \<and> selectedMenu s' = selectedMenu s
     \<and> mode s' = (if key_b i then MODE_NOTE_LIST else MODE_VIEW_NOTE)
     \<and> length (notes_array s') = length (notes_array s)
     \<and> (\<forall>j. j \<noteq> nat (selectedNote s) \<longrightarrow> notes_array s' ! j = notes_array s ! j)
     \<and> title (notes_array s' ! nat (selectedNote s)) = title (notes_array s ! nat (selectedNote s))
     \<and> (NOTE_CONTENT_LEN \<le> length (cstring (content (notes_array s ! nat (selectedNote s))))
            + length (take (NOTE_CONTENT_LEN - 1) (cstring (swkbd_text i))) + 2 \<longrightarrow>
          notes_array s' = notes_array s)
     \<and> (\<not> (key_a i \<and> swkbd_button i = SWKBD_BUTTON_RIGHT) \<longrightarrow> notes_array s' = notes_array s)"
proof -
  from inv m have sel: "0 \<le> selectedNote s" "selectedNote s < note_count s"
    by (auto simp: app_inv_def)
  define s1 where "s1 = (if key_b i then s\<lparr>mode := MODE_NOTE_LIST\<rparr> else s)"
  have s1: "(if key_b i
                then (let sb = s\<lparr>mode := MODE_NOTE_LIST\<rparr> in
                      if selectedNote sb \<ge> note_count sb then sb\<lparr>mode := MODE_MENU\<rparr> else sb)
                else s) = s1"
    using sel by (simp add: s1_def Let_def)
  have inv1: "app_inv s1" using inv sel by (simp add: s1_def app_inv_def)
  have m1: "mode s1 = (if key_b i then MODE_NOTE_LIST else MODE_VIEW_NOTE)"
    using m by (simp add: s1_def)
  have same1: "note_count s1 = note_count s" "selectedNote s1 = selectedNote s"
    "selectedMenu s1 = selectedMenu s" "notes_array s1 = notes_array s" "sdmc s1 = sdmc s"
    by (simp_all add: s1_def)
  obtain t where kb: "swkbdInputText i (currentNoteContent s1) NOTE_CONTENT_LEN = Inr (swkbd_button i, t)"
    and lt: "length t = NOTE_CONTENT_LEN" and nt: "NUL \<in> set t"
    and ct: "cstring t = take (NOTE_CONTENT_LEN - 1) (cstring (swkbd_text i))"
    using swkbdInputText_ok [of NOTE_CONTENT_LEN "currentNoteContent s1" i] inv1
    by (auto simp: app_inv_def NOTE_CONTENT_LEN_def)
  define s2 where "s2 = s1\<lparr>currentNoteContent := t\<rparr>"
  have inv2: "app_inv s2" using inv1 lt by (simp add: app_inv_def s2_def)
  have unf: "view_note_input i s =
      (if key_a i then
           (if swkbd_button i = SWKBD_BUTTON_RIGHT then
             bind_fault (array_get (notes_array s2) (selectedNote s2)) (\<lambda>n.
             bind_fault (append_to_note (Some n) (Some (currentNoteContent s2))) (\<lambda>p.
             let n' = pointee n p in
             bind_fault (save_note (sdmc s2) (title n') (content n')) (\<lambda>fs.
               Inr (s2\<lparr>notes_array := (notes_array s2)[nat (selectedNote s2) := n'], sdmc := fs\<rparr>))))
           else Inr s2)
         else Inr s1)"
    unfolding view_note_input_def unfolding s1
    unfolding Let_def kb bind_fault_def [of "Inr _"] sum.case prod.case s2_def [symmetric] ..
  have same2: "note_count s2 = note_count s" "selectedNote s2 = selectedNote s"
    "selectedMenu s2 = selectedMenu s" "notes_array s2 = notes_array s" "sdmc s2 = sdmc s"
    "mode s2 = mode s1" "currentNoteContent s2 = t"
    by (simp_all add: s2_def same1)
  show ?thesis
  proof (cases "key_a i \<and> swkbd_button i = SWKBD_BUTTON_RIGHT")
    case False
    then have "view_note_input i s = Inr s1 \<or> view_note_input i s = Inr s2"
      by (auto simp: unf)
    with inv1 inv2 same1 same2 m1 False show ?thesis by auto
  next
    case True
    define n where "n = notes_array s ! nat (selectedNote s)"
    have idx: "0 \<le> selectedNote s" "selectedNote s < int (length (notes_array s))"
      "nat (selectedNote s) < length (notes_array s)"
      using inv sel by (auto simp: app_inv_def MAX_NOTES_def)
    have nok: "note_ok n" using inv idx(3) by (simp add: app_inv_def n_def list_all_length)
    obtain n' where ap: "append_to_note (Some n) (Some t) = Inr (Some n')"
      and nok': "note_ok n'" and tn: "title n' = title n"
      and full: "NOTE_CONTENT_LEN \<le> length (cstring (content n)) + length (cstring t) + 2 \<longrightarrow> n' = n"
      using append_to_note_ok [OF nok nt] by blast
    obtain fs where sv: "save_note (sdmc s) (title n') (content n') = Inr fs"
      using save_note_ok [of "title n'" "content n'"] nok' by (auto simp: note_ok_def)
    define s' where "s' = s2\<lparr>notes_array := (notes_array s)[nat (selectedNote s) := n'], sdmc := fs\<rparr>"
    have run: "view_note_input i s = Inr s'"
      using True
      by (simp add: unf same2 bind_fault_def array_get_ok [OF idx(1,2)] n_def [symmetric] ap
          pointee_def sv s'_def)
    have inv': "app_inv s'"
      using inv2 nok' same2 by (auto simp: app_inv_def s'_def list_all_update)
    have others: "\<forall>j. j \<noteq> nat (selectedNote s) \<longrightarrow> notes_array s' ! j = notes_array s ! j"
      by (simp add: s'_def)
    have tit: "title (notes_array s' ! nat (selectedNote s)) = title n"
      using idx(3) tn by (simp add: s'_def)
    have noop: "NOTE_CONTENT_LEN \<le> length (cstring (content n))
            + length (take (NOTE_CONTENT_LEN - 1) (cstring (swkbd_text i))) + 2 \<longrightarrow>
          notes_array s' = notes_array s"
      using full ct by (auto simp: s'_def n_def)
    have rest: "note_count s' = note_count s" "selectedNote s' = selectedNote s"
      "selectedMenu s' = selectedMenu s" "mode s' = mode s1"
      "length (notes_array s') = length (notes_array s)"
      by (simp_all add: s'_def same2)
    from run inv' others tit noop rest m1 True show ?thesis
      unfolding n_def by simp
  qed
qed

lemma frame_step:
  assumes inv: "app_inv s"
  shows "\<exists>s'. frame i s = Inr s' \<and> app_inv s'
     \<and> (note_count s' = note_count s \<or> note_count s < MAX_NOTES \<and> note_count s' = note_count s + 1)"
proof -
  from inv consider "mode s = MODE_MENU" | "mode s = MODE_NOTE_LIST" | "mode s = MODE_VIEW_NOTE"
    by (auto simp: app_inv_def)
  then show ?thesis
  proof cases
    case 1
    with menu_input_step [OF inv 1, of i] show ?thesis by (auto simp: frame_def)
  next
    case 2
    with note_list_input_step [OF inv 2, of i] show ?thesis by (auto simp: frame_def)
  next
    case 3
    with view_note_input_step [OF inv 3, of i] show ?thesis by (auto simp: frame_def)
  qed
qed

lemma main_loop_inv:
  "app_inv s \<Longrightarrow> \<exists>s'. main_loop s inputs = Inr s' \<and> app_inv s'"
proof (induction inputs arbitrary: s)
  case Nil
  then show ?case by simp
next
  case (Cons i rest)
  from frame_step [OF Cons.prems, of i] obtain s1 where
    s1: "frame i s = Inr s1" "app_inv s1" by blast
  from Cons.IH [OF s1(2)] s1(1) Cons.prems show ?case
    by (auto simp: bind_fault_def)
qed

section \<open>Loading the notes directory\<close>

lemma cstring_append_NUL_any: "cstring (xs @ NUL # ys) = cstring xs"
  by (induction xs) (auto simp: cstring_def)

lemma cstring_id: "NUL \<notin> set xs \<Longrightarrow> cstring xs = xs"
  by (induction xs) (auto simp: cstring_def)

lemma fread_store_ok:
  assumes "length buf = NOTE_CONTENT_LEN"
  shows "\<exists>c. bind_fault (fread buf data (NOTE_CONTENT_LEN - 1)) (\<lambda>(c, len).
            bind_fault (store_byte c len NUL) f) = f c
          \<and> length c = NOTE_CONTENT_LEN \<and> NUL \<in> set c
          \<and> cstring c = cstring (take (NOTE_CONTENT_LEN - 1) data)"
proof -
  define len where "len = min (NOTE_CONTENT_LEN - 1) (length data)"
  define b where "b = take len data @ drop len buf"
  define c where "c = take len data @ NUL # drop (Suc len) buf"
  have l: "len < length buf" "len \<le> length data"
    using assms by (simp_all add: len_def NOTE_CONTENT_LEN_def)
  have fr: "fread buf data (NOTE_CONTENT_LEN - 1) = Inr (b, len)"
    unfolding fread_def Let_def len_def [symmetric] memcpy_def b_def
    using l by (simp add: bind_fault_def)
  have lt: "length (take len data) = len" using l by simp
  have "b[len := NUL] = take len data @ (drop len buf)[0 := NUL]"
    unfolding b_def using lt by (metis list_update_append diff_self_eq_0 less_irrefl)
  moreover have "drop len buf = buf ! len # drop (Suc len) buf"
    using l by (simp add: Cons_nth_drop_Suc)
  ultimately have "b[len := NUL] = c" by (simp add: c_def)
  moreover have "len < length b" using l by (simp add: b_def)
  ultimately have st: "store_byte b len NUL = Inr c" by (simp add: store_byte_def)
  have "length c = length (take len data) + Suc (length buf - Suc len)" by (simp add: c_def)
  with lt l assms have lc: "length c = NOTE_CONTENT_LEN" by linarith
  have tk: "take len data = take (NOTE_CONTENT_LEN - 1) data"
    by (cases "NOTE_CONTENT_LEN - 1 \<le> length data") (simp_all add: len_def)
  have cs: "cstring c = cstring (take (NOTE_CONTENT_LEN - 1) data)"
    unfolding c_def tk by (rule cstring_append_NUL_any)
  have "NUL \<in> set c" by (simp add: c_def)
  with fr st lc cs show ?thesis by (auto simp: bind_fault_def)
qed

lemma load_entries_Cons:
  assumes inv: "app_inv s"
  shows "(\<not> note_count s < MAX_NOTES \<and> load_entries (e # es) s = Inr s)
    \<or> (note_count s < MAX_NOTES \<and> \<not> loadable (sdmc s) e
         \<and> (d_type e = DT_REG \<longrightarrow> NUL \<in> set (d_name e))
         \<and> load_entries (e # es) s = load_entries es s)
    \<or> (note_count s < MAX_NOTES \<and> d_type e = DT_REG \<and> NUL \<notin> set (d_name e)
         \<and> load_entries (e # es) s = Inl OutOfBounds)
    \<or> (note_count s < MAX_NOTES \<and> loadable (sdmc s) e \<and> NUL \<in> set (d_name e)
         \<and> (\<exists>n'. note_ok n'
               \<and> cstring (title n') = take (TITLE_LEN - 1) (cstring (d_name e))
               \<and> cstring (content n') =
                   cstring (take (NOTE_CONTENT_LEN - 1)
                     (the (files (sdmc s) (take 255 (NOTES_DIR @ cstring (d_name e))))))
               \<and> load_entries (e # es) s =
                   load_entries es (s\<lparr>notes_array := (notes_array s)[nat (note_count s) := n'],
                                      note_count := note_count s + 1\<rparr>)))"
proof -
  let ?path = "take 255 (NOTES_DIR @ cstring (d_name e))"
  consider (full) "\<not> note_count s < MAX_NOTES"
    | (other) "note_count s < MAX_NOTES" "d_type e \<noteq> DT_REG"
    | (bad) "note_count s < MAX_NOTES" "d_type e = DT_REG" "NUL \<notin> set (d_name e)"
    | (closed) "note_count s < MAX_NOTES" "d_type e = DT_REG" "NUL \<in> set (d_name e)"
        "files (sdmc s) ?path = None"
    | (opened) data where "note_count s < MAX_NOTES" "d_type e = DT_REG" "NUL \<in> set (d_name e)"
        "files (sdmc s) ?path = Some data"
    by (cases "files (sdmc s) ?path") auto
  then show ?thesis
  proof cases
    case full
    then show ?thesis by simp
  next
    case other
    then show ?thesis by (simp add: loadable_def)
  next
    case bad
    then show ?thesis by (simp add: snprintf_filepath_def strlen_def bind_fault_def)
  next
    case closed
    then show ?thesis by (simp add: loadable_def snprintf_filepath_ok bind_fault_def)
  next
    case opened
    define n where "n = notes_array s ! nat (note_count s)"
    have idx: "0 \<le> note_count s" "note_count s < int (length (notes_array s))"
      "nat (note_count s) < length (notes_array s)"
      using inv opened(1) by (auto simp: app_inv_def MAX_NOTES_def)
    have nok: "note_ok n" using inv idx(3) by (simp add: app_inv_def n_def list_all_length)
    obtain d where cp: "safe_string_copy (Some (title n)) (Some (d_name e)) TITLE_LEN = Inr (Some d)"
      and ld: "length d = TITLE_LEN" and nd: "NUL \<in> set d"
      and cd: "cstring d = take (TITLE_LEN - 1) (cstring (d_name e))"
      using safe_string_copy_ok [OF opened(3), of TITLE_LEN "title n"] nok
      by (auto simp: note_ok_def TITLE_LEN_def)
    let ?k = "\<lambda>c'. load_entries es
                   (s\<lparr>notes_array := (notes_array s)[nat (note_count s) :=
                                   \<lparr>title = pointee (title n) (Some d), content = c'\<rparr>],
                      note_count := note_count s + 1\<rparr>)"
    from nok have "length (content n) = NOTE_CONTENT_LEN" by (simp add: note_ok_def)
    from fread_store_ok [OF this, of data ?k] obtain c where
      rd: "bind_fault (fread (content n) data (NOTE_CONTENT_LEN - 1)) (\<lambda>(c, len).
            bind_fault (store_byte c len NUL) ?k) = ?k c"
      and lc: "length c = NOTE_CONTENT_LEN" and nc: "NUL \<in> set c"
      and cc: "cstring c = cstring (take (NOTE_CONTENT_LEN - 1) data)"
      by blast
    have run: "load_entries (e # es) s = ?k c"
      using opened
      by (simp add: snprintf_filepath_ok bind_fault_def [of "Inr _"] array_get_ok [OF idx(1,2)]
          n_def [symmetric] cp rd [unfolded One_nat_def])
    have "note_ok \<lparr>title = d, content = c\<rparr>" using ld nd lc nc by (simp add: note_ok_def)
    with run opened cd cc show ?thesis
      by (auto simp: loadable_def pointee_def intro!: exI [of _ "\<lparr>title = d, content = c\<rparr>"])
  qed
qed

lemma app_inv_loaded:
  assumes "app_inv s" "note_count s < MAX_NOTES" "note_ok n'"
  shows "app_inv (s\<lparr>notes_array := (notes_array s)[nat (note_count s) := n'],
                    note_count := note_count s + 1\<rparr>)"
  using assms by (auto simp: app_inv_def list_all_update)

lemma load_entries_inv:
  "app_inv s \<Longrightarrow> load_entries es s = Inr s' \<Longrightarrow>
     app_inv s' \<and> mode s' = mode s \<and> selectedNote s' = selectedNote s
       \<and> selectedMenu s' = selectedMenu s \<and> sdmc s' = sdmc s \<and> note_count s \<le> note_count s'"
proof (induction es arbitrary: s)
  case Nil
  then show ?case by simp
next
  case (Cons e es)
  from load_entries_Cons [OF Cons.prems(1), of e es] Cons.prems(2)
  consider (full) "s' = s"
    | (skip) "load_entries es s = Inr s'"
    | (loaded) n' where "note_count s < MAX_NOTES" "note_ok n'"
        "load_entries es (s\<lparr>notes_array := (notes_array s)[nat (note_count s) := n'],
                           note_count := note_count s + 1\<rparr>) = Inr s'"
    by auto
  then show ?case
  proof cases
    case full
    with Cons.prems show ?thesis by simp
  next
    case skip
    from Cons.IH [OF Cons.prems(1) skip] show ?thesis .
  next
    case loaded
    from Cons.IH [OF app_inv_loaded [OF Cons.prems(1) loaded(1,2)] loaded(3)]
    show ?thesis by simp
  qed
qed

lemma load_entries_total:
  "app_inv s \<Longrightarrow> list_all (\<lambda>e. NUL \<in> set (d_name e)) es \<Longrightarrow> \<exists>s'. load_entries es s = Inr s'"
proof (induction es arbitrary: s)
  case Nil
  then show ?case by simp
next
  case (Cons e es)
  from Cons.prems(2) have e: "NUL \<in> set (d_name e)"
    and es: "list_all (\<lambda>e. NUL \<in> set (d_name e)) es" by simp_all
  from load_entries_Cons [OF Cons.prems(1), of e es] e
  consider (full) "load_entries (e # es) s = Inr s"
    | (skip) "load_entries (e # es) s = load_entries es s"
    | (loaded) n' where "note_count s < MAX_NOTES" "note_ok n'"
        "load_entries (e # es) s =
           load_entries es (s\<lparr>notes_array := (notes_array s)[nat (note_count s) := n'],
                           note_count := note_count s + 1\<rparr>)"
    by auto
  then show ?case
  proof cases
    case full
    then show ?thesis by simp
  next
    case skip
    with Cons.IH [OF Cons.prems(1) es] show ?thesis by simp
  next
    case loaded
    with Cons.IH [OF app_inv_loaded [OF Cons.prems(1) loaded(1,2)] es] show ?thesis by simp
  qed
qed

lemma app_inv_initial: "app_inv (initial_state fs)"
  by (simp add: app_inv_def initial_state_def MAX_NOTES_def list_all_length note_ok_def
      blank_note_def TITLE_LEN_def NOTE_CONTENT_LEN_def)

lemma load_notes_inv:
  assumes "app_inv s" "load_notes s = Inr s'" and start: "selectedNote s = -1" "mode s = MODE_MENU"
  shows "app_inv s' \<and> mode s' = mode s \<and> selectedNote s' = selectedNote s"
proof -
  define s1 where "s1 = s\<lparr>sdmc := ensure_notes_directory (sdmc s), note_count := 0\<rparr>"
  have inv1: "app_inv s1" using assms(1) start by (auto simp: s1_def app_inv_def MAX_NOTES_def)
  have keep: "mode s1 = mode s" "selectedNote s1 = selectedNote s" by (simp_all add: s1_def)
  from assms(2) have "s' = s1 \<or> load_entries (dir_entries (sdmc s1)) s1 = Inr s'"
    by (auto simp: load_notes_def s1_def [symmetric] Let_def split: if_splits)
  then show ?thesis
  proof
    assume "s' = s1"
    with inv1 keep show ?thesis by simp
  next
    assume "load_entries (dir_entries (sdmc s1)) s1 = Inr s'"
    from load_entries_inv [OF inv1 this] keep show ?thesis by simp
  qed
qed

lemma fs_ok_ensure: "fs_ok fs \<Longrightarrow> fs_ok (ensure_notes_directory fs)"
  by (simp add: fs_ok_def ensure_notes_directory_def mkdir_def)

lemma load_notes_total:
  assumes "app_inv s" "fs_ok (sdmc s)" and start: "selectedNote s = -1" "mode s = MODE_MENU"
  shows "\<exists>s'. load_notes s = Inr s'"
proof -
  define s1 where "s1 = s\<lparr>sdmc := ensure_notes_directory (sdmc s), note_count := 0\<rparr>"
  have inv1: "app_inv s1" using assms(1) start by (auto simp: s1_def app_inv_def MAX_NOTES_def)
  have "fs_ok (sdmc s1)" using fs_ok_ensure [OF assms(2)] by (simp add: s1_def)
  then have "list_all (\<lambda>e. NUL \<in> set (d_name e)) (dir_entries (sdmc s1))"
    by (simp add: fs_ok_def)
  from load_entries_total [OF inv1 this] show ?thesis
    by (auto simp: load_notes_def s1_def [symmetric] Let_def)
qed

lemma initial_start: "selectedNote (initial_state fs) = -1" "mode (initial_state fs) = MODE_MENU"
  by (simp_all add: initial_state_def)

lemma main_inv:
  assumes "main fs inputs = Inr s"
  shows "app_inv s"
proof -
  from assms obtain s0 where l: "load_notes (initial_state fs) = Inr s0"
    and r: "main_loop s0 inputs = Inr s"
    by (auto simp: main_def bind_fault_def split: sum.splits)
  from load_notes_inv [OF app_inv_initial l initial_start] have "app_inv s0" by simp
  from main_loop_inv [OF this, of inputs] r show ?thesis by simp
qed

lemma main_total:
  assumes "fs_ok fs"
  shows "\<exists>s. main fs inputs = Inr s"
proof -
  have "fs_ok (sdmc (initial_state fs))" using assms by (simp add: initial_state_def)
  from load_notes_total [OF app_inv_initial this initial_start] obtain s0 where
    l: "load_notes (initial_state fs) = Inr s0" by blast
  from load_notes_inv [OF app_inv_initial l initial_start] have "app_inv s0" by simp
  from main_loop_inv [OF this, of inputs] l show ?thesis
    by (auto simp: main_def bind_fault_def)
qed

section \<open>Counting the loaded notes\<close>

lemma load_entries_count:
  "app_inv s \<Longrightarrow> load_entries es s = Inr s' \<Longrightarrow>
     note_count s' = min MAX_NOTES (note_count s + int (length (filter (loadable (sdmc s)) es)))"
proof (induction es arbitrary: s)
  case Nil
  then show ?case by (simp add: app_inv_def)
next
  case (Cons e es)
  from load_entries_Cons [OF Cons.prems(1), of e es] Cons.prems(2)
  consider (full) "\<not> note_count s < MAX_NOTES" "s' = s"
    | (skip) "\<not> loadable (sdmc s) e" "load_entries es s = Inr s'"
    | (loaded) n' where "note_count s < MAX_NOTES" "note_ok n'" "loadable (sdmc s) e"
        "load_entries es (s\<lparr>notes_array := (notes_array s)[nat (note_count s) := n'],
                           note_count := note_count s + 1\<rparr>) = Inr s'"
    by auto
  then show ?case
  proof cases
    case full
    with Cons.prems(1) show ?thesis by (simp add: app_inv_def)
  next
    case skip
    from Cons.IH [OF Cons.prems(1) skip(2)] skip(1) show ?thesis by simp
  next
    case loaded
    from Cons.IH [OF app_inv_loaded [OF Cons.prems(1) loaded(1,2)] loaded(4)] loaded(3)
    show ?thesis by simp
  qed
qed

lemma load_notes_count:
  assumes "load_notes (initial_state fs) = Inr s" "dir_present fs"
  shows "note_count s = min MAX_NOTES (int (length (filter (loadable fs) (dir_entries fs))))"
proof -
  define s1 where "s1 = (initial_state fs)\<lparr>sdmc := fs, note_count := 0\<rparr>"
  have inv1: "app_inv s1" using app_inv_initial [of fs]
    by (auto simp: s1_def app_inv_def MAX_NOTES_def initial_state_def)
  have fs1: "sdmc s1 = fs" "note_count s1 = 0" by (simp_all add: s1_def)
  have "sdmc (initial_state fs) = fs" by (simp add: initial_state_def)
  with assms have "load_entries (dir_entries fs) s1 = Inr s"
    by (simp add: load_notes_def ensure_notes_directory_def s1_def Let_def)
  from load_entries_count [OF inv1 this] fs1 show ?thesis by simp
qed

section \<open>Two runs of the program\<close>

text \<open>
  On an empty card: the menu's "New Note" with the title \<open>todo\<close> accepted. On a card
  with one file: down and A in the menu, which opens the note list.
\<close>

lemma run_new_note:
  "map_sum id (\<lambda>s. (mode s, selectedNote s, note_count s)) (main empty_card [confirm_text ''todo''])
     = Inr (MODE_VIEW_NOTE, 0, 1)"
  by code_simp

lemma run_view_notes:
  "map_sum id (\<lambda>s. (mode s, selectedNote s, note_count s))
     (main (card_of [''todo'']) [no_keys\<lparr>key_down := True, key_a := True\<rparr>])
     = Inr (MODE_NOTE_LIST, 0, 1)"
  by code_simp

lemma fs_ok_empty_card: "fs_ok empty_card"
  by (simp add: fs_ok_def empty_card_def)

lemma fs_ok_card_of: "fs_ok (card_of names)"
  by (simp add: fs_ok_def card_of_def list_all_iff)

section \<open>Reachable states\<close>

text \<open>
  Claim C6. In every state the program reaches from its start on any card by any sequence
  of inputs, \<open>selectedNote\<close> is \<open>-1\<close> or an index below \<open>note_count\<close>. The start is the
  state after \<open>load_notes\<close>; on a card without notes it has mode Menu, count 0 and
  selection \<open>-1\<close>.
\<close>

theorem selectedNote_valid:
  assumes "main fs inputs = Inr s"
  shows "selectedNote s = -1 \<or> (0 \<le> selectedNote s \<and> selectedNote s < note_count s)"
  using main_inv [OF assms] by (simp add: app_inv_def)

theorem selectedNote_valid_witness:
  "case main empty_card [confirm_text ''todo''] of
     Inr s \<Rightarrow> (selectedNote s = -1 \<or> 0 \<le> selectedNote s \<and> selectedNote s < note_count s)
               \<and> selectedNote s = 0 \<and> note_count s = 1
   | Inl e \<Rightarrow> False"
proof -
  from run_new_note obtain s where s: "main empty_card [confirm_text ''todo''] = Inr s"
    "selectedNote s = 0" "note_count s = 1"
    by (cases "main empty_card [confirm_text ''todo'']") auto
  from selectedNote_valid [OF s(1)] s show ?thesis by simp
qed

text \<open>
  Claim C9. No reachable state has the mode \<open>MODE_EDIT_NOTE\<close>.
\<close>

theorem edit_note_unreachable:
  assumes "main fs inputs = Inr s"
  shows "mode s \<noteq> MODE_EDIT_NOTE"
  using main_inv [OF assms] by (auto simp: app_inv_def)

theorem edit_note_unreachable_witness:
  "case main empty_card [confirm_text ''todo'', back_key, up_key, confirm_text ''x''] of
     Inr s \<Rightarrow> mode s \<noteq> MODE_EDIT_NOTE
   | Inl e \<Rightarrow> False"
proof -
  from main_total [OF fs_ok_empty_card] obtain s where
    s: "main empty_card [confirm_text ''todo'', back_key, up_key, confirm_text ''x''] = Inr s"
    by blast
  from edit_note_unreachable [OF s] s show ?thesis by simp
qed

text \<open>
  Claim C7. In every reachable state whose mode is the note list, \<open>note_count\<close> is
  positive, and no pass of the loop from a reachable state takes a remainder by zero.
\<close>

theorem note_list_count_positive:
  assumes "main fs inputs = Inr s"
  shows "(mode s = MODE_NOTE_LIST \<longrightarrow> 0 < note_count s) \<and> frame i s \<noteq> Inl DivByZero"
proof -
  from main_inv [OF assms] have inv: "app_inv s" .
  then have "mode s = MODE_NOTE_LIST \<longrightarrow> 0 < note_count s" by (auto simp: app_inv_def)
  moreover from frame_step [OF inv, of i] have "frame i s \<noteq> Inl DivByZero" by auto
  ultimately show ?thesis by simp
qed

theorem note_list_count_positive_witness:
  "case main (card_of [''todo'']) [no_keys\<lparr>key_down := True, key_a := True\<rparr>] of
     Inr s \<Rightarrow> mode s = MODE_NOTE_LIST \<and> 0 < note_count s \<and> frame up_key s \<noteq> Inl DivByZero
   | Inl e \<Rightarrow> False"
proof -
  from run_view_notes obtain s where
    s: "main (card_of [''todo'']) [no_keys\<lparr>key_down := True, key_a := True\<rparr>] = Inr s"
    "mode s = MODE_NOTE_LIST"
    by (cases "main (card_of [''todo'']) [no_keys\<lparr>key_down := True, key_a := True\<rparr>]") auto
  from note_list_count_positive [OF s(1), of up_key] s show ?thesis by simp
qed

section \<open>Moving through the note list\<close>

text \<open>
  Claim C8. In the note list, with \<open>note_count > 0\<close> and a selection \<open>i\<close> between \<open>0\<close>
  and \<open>note_count - 1\<close>, down alone selects \<open>(i + 1) mod note_count\<close> and up alone selects
  \<open>(i - 1 + note_count) mod note_count\<close>. With three notes, up from index 0 gives index 2
  and down from index 2 gives index 0.
\<close>

theorem note_list_wraparound:
  assumes "mode s = MODE_NOTE_LIST" "0 \<le> selectedNote s" "selectedNote s < note_count s"
  shows "(key_down i \<and> \<not> key_up i \<longrightarrow>
           (\<exists>s'. frame i s = Inr s' \<and> selectedNote s' = (selectedNote s + 1) mod note_count s))
       \<and> (key_up i \<and> \<not> key_down i \<longrightarrow>
           (\<exists>s'. frame i s = Inr s'
              \<and> selectedNote s' = (selectedNote s - 1 + note_count s) mod note_count s))"
  using assms
  by (auto simp: frame_def note_list_input_def c_mod_def bind_fault_def smod_nonneg Let_def)

theorem note_list_wraparound_witness:
  "(case frame up_key (three_notes_at 0) of Inr s' \<Rightarrow> selectedNote s' = 2 | Inl e \<Rightarrow> False)
   \<and> (case frame down_key (three_notes_at 2) of Inr s' \<Rightarrow> selectedNote s' = 0 | Inl e \<Rightarrow> False)"
proof -
  have a: "mode (three_notes_at 0) = MODE_NOTE_LIST" "0 \<le> selectedNote (three_notes_at 0)"
      "selectedNote (three_notes_at 0) < note_count (three_notes_at 0)"
    and b: "mode (three_notes_at 2) = MODE_NOTE_LIST" "0 \<le> selectedNote (three_notes_at 2)"
      "selectedNote (three_notes_at 2) < note_count (three_notes_at 2)"
    by (simp_all add: three_notes_at_def)
  have k: "key_up up_key" "\<not> key_down up_key" "key_down down_key" "\<not> key_up down_key"
    by (simp_all add: up_key_def down_key_def no_keys_def)
  from note_list_wraparound [OF a, of up_key] k obtain s1 where
    "frame up_key (three_notes_at 0) = Inr s1" "selectedNote s1 = 2"
    by (auto simp: three_notes_at_def)
  moreover from note_list_wraparound [OF b, of down_key] k obtain s2 where
    "frame down_key (three_notes_at 2) = Inr s2" "selectedNote s2 = 0"
    by (auto simp: three_notes_at_def)
  ultimately show ?thesis by simp
qed

section \<open>The capacity of the store\<close>

lemma new_note_count:
  "new_note i s = Inr s' \<Longrightarrow>
     note_count s' = note_count s \<or> note_count s < MAX_NOTES \<and> note_count s' = note_count s + 1"
  by (auto simp: new_note_def bind_fault_def Let_def split: sum.splits prod.splits if_splits)

lemma frame_count:
  "frame i s = Inr s' \<Longrightarrow>
     note_count s' = note_count s \<or> note_count s < MAX_NOTES \<and> note_count s' = note_count s + 1"
  by (auto simp: frame_def menu_input_def note_list_input_def view_note_input_def bind_fault_def
      Let_def dest!: new_note_count split: sum.splits prod.splits if_splits)

text \<open>
  Claim C5. \<open>load_notes\<close> leaves \<open>0 \<le> note_count \<le> MAX_NOTES\<close> whatever the directory
  holds. Every reachable state satisfies the same bounds and every pass of the loop from
  it keeps them; from a state with \<open>MAX_NOTES\<close> notes the count stays \<open>MAX_NOTES\<close>, and in
  the menu the notes are then unchanged and the view of a new note is not entered. A pass
  of the loop from any state within the bounds, reachable or not, ends within the bounds.
\<close>

theorem note_count_bounded:
  "(load_notes (initial_state fs) = Inr s0 \<longrightarrow> 0 \<le> note_count s0 \<and> note_count s0 \<le> MAX_NOTES)
   \<and> (main fs inputs = Inr s \<longrightarrow>
        0 \<le> note_count s \<and> note_count s \<le> MAX_NOTES
        \<and> (\<exists>s'. frame i s = Inr s' \<and> 0 \<le> note_count s' \<and> note_count s' \<le> MAX_NOTES
              \<and> (note_count s = MAX_NOTES \<longrightarrow> note_count s' = MAX_NOTES
                    \<and> (mode s = MODE_MENU \<longrightarrow>
                          notes_array s' = notes_array s \<and> mode s' \<noteq> MODE_VIEW_NOTE))))
   \<and> (0 \<le> note_count s1 \<and> note_count s1 \<le> MAX_NOTES \<and> frame i s1 = Inr s2 \<longrightarrow>
        0 \<le> note_count s2 \<and> note_count s2 \<le> MAX_NOTES
        \<and> (note_count s1 = MAX_NOTES \<longrightarrow> note_count s2 = MAX_NOTES))"
proof (intro conjI impI)
  assume "load_notes (initial_state fs) = Inr s0"
  from load_notes_inv [OF app_inv_initial this initial_start]
  show "0 \<le> note_count s0" "note_count s0 \<le> MAX_NOTES" by (simp_all add: app_inv_def)
next
  assume r: "main fs inputs = Inr s"
  from main_inv [OF r] have inv: "app_inv s" .
  then show "0 \<le> note_count s" "note_count s \<le> MAX_NOTES" by (simp_all add: app_inv_def)
  from frame_step [OF inv, of i] obtain s' where
    s': "frame i s = Inr s'" "app_inv s'"
      "note_count s' = note_count s \<or> note_count s < MAX_NOTES \<and> note_count s' = note_count s + 1"
    by blast
  have menu: "note_count s = MAX_NOTES \<longrightarrow> mode s = MODE_MENU \<longrightarrow>
       notes_array s' = notes_array s \<and> mode s' \<noteq> MODE_VIEW_NOTE"
  proof (intro impI)
    assume full: "note_count s = MAX_NOTES" and m: "mode s = MODE_MENU"
    from menu_input_step [OF inv m, of i] s'(1) m full
    show "notes_array s' = notes_array s \<and> mode s' \<noteq> MODE_VIEW_NOTE"
      by (auto simp: frame_def)
  qed
  from s' menu
  show "\<exists>s'. frame i s = Inr s' \<and> 0 \<le> note_count s' \<and> note_count s' \<le> MAX_NOTES
              \<and> (note_count s = MAX_NOTES \<longrightarrow> note_count s' = MAX_NOTES
                    \<and> (mode s = MODE_MENU \<longrightarrow>
                          notes_array s' = notes_array s \<and> mode s' \<noteq> MODE_VIEW_NOTE))"
    by (auto simp: app_inv_def)
next
  assume a: "0 \<le> note_count s1 \<and> note_count s1 \<le> MAX_NOTES \<and> frame i s1 = Inr s2"
  then have "note_count s2 = note_count s1
      \<or> note_count s1 < MAX_NOTES \<and> note_count s2 = note_count s1 + 1"
    by (auto dest: frame_count)
  with a show "0 \<le> note_count s2" "note_count s2 \<le> MAX_NOTES"
    "note_count s1 = MAX_NOTES \<Longrightarrow> note_count s2 = MAX_NOTES"
    by auto
qed

theorem note_count_bounded_witness:
  "(case load_notes (initial_state (card_of (ten_names @ [''n10'', ''n11'']))) of
      Inr s0 \<Rightarrow> note_count s0 = 10 | Inl e \<Rightarrow> False)
   \<and> (case main (card_of ten_names) [] of
      Inr s \<Rightarrow> note_count s = 10
         \<and> (case frame (confirm_text ''one more'') s of
              Inr s' \<Rightarrow> note_count s' = 10 \<and> notes_array s' = notes_array s
                        \<and> mode s' \<noteq> MODE_VIEW_NOTE
            | Inl e \<Rightarrow> False)
    | Inl e \<Rightarrow> False)"
proof -
  let ?twelve = "card_of (ten_names @ [''n10'', ''n11''])" and ?ten = "card_of ten_names"
  have st12: "fs_ok (sdmc (initial_state ?twelve))" and st10: "fs_ok (sdmc (initial_state ?ten))"
    by (simp_all add: initial_state_def fs_ok_card_of)
  from load_notes_total [OF app_inv_initial st12 initial_start] obtain s0 where
    s0: "load_notes (initial_state ?twelve) = Inr s0" by blast
  have "length (filter (loadable ?twelve) (dir_entries ?twelve)) = 12"
    by (simp add: card_of_def ten_names_def loadable_def cstring_def NOTES_DIR_def)
  with load_notes_count [OF s0] have ge: "10 \<le> note_count s0"
    by (simp add: card_of_def MAX_NOTES_def)
  from note_count_bounded [of ?twelve s0 "[]" s0 no_keys s0 s0] s0 ge
  have first: "note_count s0 = 10" by (simp add: MAX_NOTES_def)
  from load_notes_total [OF app_inv_initial st10 initial_start] obtain s where
    s: "load_notes (initial_state ?ten) = Inr s" by blast
  then have run: "main ?ten [] = Inr s" by (simp add: main_def bind_fault_def)
  have "length (filter (loadable ?ten) (dir_entries ?ten)) = 10"
    by (simp add: card_of_def ten_names_def loadable_def cstring_def NOTES_DIR_def)
  with load_notes_count [OF s] have cnt: "note_count s = 10"
    by (simp add: card_of_def MAX_NOTES_def)
  from load_notes_inv [OF app_inv_initial s initial_start] have m: "mode s = MODE_MENU"
    by (simp add: initial_state_def)
  from note_count_bounded [of ?ten s "[]" s "confirm_text ''one more''" s s] run cnt m
  obtain s' where s': "frame (confirm_text ''one more'') s = Inr s'" "note_count s' = 10"
    "notes_array s' = notes_array s" "mode s' \<noteq> MODE_VIEW_NOTE"
    by (auto simp: MAX_NOTES_def)
  with s0 first run cnt s' show ?thesis by simp
qed

section \<open>Adding a line in the note view\<close>

text \<open>
  Claim C10. In a reachable state in the note view, a pass with A down, B not down and
  the keyboard closed with its right button returns without a fault and changes neither
  the mode, \<open>note_count\<close>, \<open>selectedNote\<close> nor \<open>selectedMenu\<close>; every note other than the
  selected one is unchanged and the selected note keeps its title. When the line does not
  fit, the whole array of notes is unchanged.
\<close>

theorem append_line_frame:
  assumes r: "main fs inputs = Inr s" and m: "mode s = MODE_VIEW_NOTE"
    and a: "key_a i" "\<not> key_b i" "swkbd_button i = SWKBD_BUTTON_RIGHT"
  shows "\<exists>s'. frame i s = Inr s'
     \<and> mode s' = mode s \<and> note_count s' = note_count s \<and> selectedNote s' = selectedNote s
     \<and> selectedMenu s' = selectedMenu s
     \<and> length (notes_array s') = length (notes_array s)
     \<and> (\<forall>j. j \<noteq> nat (selectedNote s) \<longrightarrow> notes_array s' ! j = notes_array s ! j)
     \<and> title (notes_array s' ! nat (selectedNote s)) = title (notes_array s ! nat (selectedNote s))
     \<and> (NOTE_CONTENT_LEN \<le> length (cstring (content (notes_array s ! nat (selectedNote s))))
            + length (take (NOTE_CONTENT_LEN - 1) (cstring (swkbd_text i))) + 2 \<longrightarrow>
          notes_array s' = notes_array s)"
  using view_note_input_step [OF main_inv [OF r] m, of i] m a
  by (auto simp: frame_def)

theorem append_line_frame_witness:
  "case main empty_card [confirm_text ''todo''] of
     Inr s \<Rightarrow> mode s = MODE_VIEW_NOTE
        \<and> (case frame (confirm_text ''buy milk'') s of
             Inr s' \<Rightarrow> mode s' = MODE_VIEW_NOTE \<and> note_count s' = note_count s
                \<and> selectedNote s' = selectedNote s \<and> selectedMenu s' = selectedMenu s
                \<and> length (notes_array s') = length (notes_array s)
                \<and> title (notes_array s' ! 0) = title (notes_array s ! 0)
                \<and> notes_array s' ! 1 = notes_array s ! 1
           | Inl e \<Rightarrow> False)
   | Inl e \<Rightarrow> False"
proof -
  from run_new_note obtain s where s: "main empty_card [confirm_text ''todo''] = Inr s"
    "mode s = MODE_VIEW_NOTE" "selectedNote s = 0"
    by (cases "main empty_card [confirm_text ''todo'']") auto
  have k: "key_a (confirm_text ''buy milk'')" "\<not> key_b (confirm_text ''buy milk'')"
    "swkbd_button (confirm_text ''buy milk'') = SWKBD_BUTTON_RIGHT"
    by (simp_all add: confirm_text_def no_keys_def)
  from append_line_frame [OF s(1,2) k] s show ?thesis by auto
qed

section \<open>Back from a new note\<close>

text \<open>
  In every reachable state in the note view, B leads to the note list: after "New Note"
  the selection is the old count and the count has been incremented, so
  \<open>selectedNote >= note_count\<close> is false.
\<close>

lemma view_back_goes_to_list:
  assumes "main fs inputs = Inr s" "mode s = MODE_VIEW_NOTE" "key_b i"
  shows "\<exists>s'. frame i s = Inr s' \<and> mode s' = MODE_NOTE_LIST"
  using view_note_input_step [OF main_inv [OF assms(1)] assms(2), of i] assms(2,3)
  by (auto simp: frame_def)

text \<open>
  Claim C1 says that B in the view of a note just created from the menu leads back to the
  menu. The program run on an empty card, with "New Note" titled \<open>todo\<close> and then B, ends
  in the note list.
\<close>

theorem back_from_new_note_goes_to_list:
  "map_sum id (\<lambda>s. (mode s, selectedNote s, note_count s))
     (main empty_card [confirm_text ''todo'', back_key]) = Inr (MODE_NOTE_LIST, 0, 1)"
  by code_simp

section \<open>Saving and loading\<close>

lemma load_entries_finds_last:
  assumes "app_inv s" "list_all (\<lambda>e. NUL \<in> set (d_name e)) xs" "NUL \<in> set (d_name e)"
    "loadable (sdmc s) e"
    "note_count s + int (length (filter (loadable (sdmc s)) xs)) < MAX_NOTES"
  shows "\<exists>s' j. load_entries (xs @ [e]) s = Inr s' \<and> note_count s \<le> j \<and> j < note_count s'
     \<and> cstring (title (notes_array s' ! nat j)) = take (TITLE_LEN - 1) (cstring (d_name e))
     \<and> cstring (content (notes_array s' ! nat j)) =
         cstring (take (NOTE_CONTENT_LEN - 1)
           (the (files (sdmc s) (take 255 (NOTES_DIR @ cstring (d_name e))))))"
  using assms
proof (induction xs arbitrary: s)
  case Nil
  from Nil.prems(5) have lt: "note_count s < MAX_NOTES" by simp
  from load_entries_Cons [OF Nil.prems(1), of e "[]"] Nil.prems(3,4) lt
  obtain n' where n': "note_ok n'"
      "cstring (title n') = take (TITLE_LEN - 1) (cstring (d_name e))"
      "cstring (content n') = cstring (take (NOTE_CONTENT_LEN - 1)
           (the (files (sdmc s) (take 255 (NOTES_DIR @ cstring (d_name e))))))"
      "load_entries [e] s = Inr (s\<lparr>notes_array := (notes_array s)[nat (note_count s) := n'],
                                      note_count := note_count s + 1\<rparr>)"
    by auto
  have "nat (note_count s) < length (notes_array s)"
    using Nil.prems(1) lt by (auto simp: app_inv_def MAX_NOTES_def)
  then have "(notes_array s)[nat (note_count s) := n'] ! nat (note_count s) = n'" by simp
  with n' show ?case
    by (intro exI [of _ "s\<lparr>notes_array := (notes_array s)[nat (note_count s) := n'],
                                      note_count := note_count s + 1\<rparr>"] exI [of _ "note_count s"])
      simp
next
  case (Cons x xs)
  from Cons.prems(5) have lt: "note_count s < MAX_NOTES" by simp
  from Cons.prems(2) have x: "NUL \<in> set (d_name x)"
    and xs: "list_all (\<lambda>e. NUL \<in> set (d_name e)) xs" by simp_all
  from load_entries_Cons [OF Cons.prems(1), of x "xs @ [e]"] lt x
  consider (skip) "\<not> loadable (sdmc s) x" "load_entries (x # xs @ [e]) s = load_entries (xs @ [e]) s"
    | (loaded) n' where "note_ok n'" "loadable (sdmc s) x"
        "load_entries (x # xs @ [e]) s =
           load_entries (xs @ [e]) (s\<lparr>notes_array := (notes_array s)[nat (note_count s) := n'],
                           note_count := note_count s + 1\<rparr>)"
    by auto
  then show ?case
  proof cases
    case skip
    from skip(1) Cons.prems(5)
    have "note_count s + int (length (filter (loadable (sdmc s)) xs)) < MAX_NOTES" by simp
    from Cons.IH [OF Cons.prems(1) xs Cons.prems(3,4) this] skip(2) show ?thesis by simp
  next
    case loaded
    let ?s1 = "s\<lparr>notes_array := (notes_array s)[nat (note_count s) := n'],
                           note_count := note_count s + 1\<rparr>"
    have inv1: "app_inv ?s1" by (rule app_inv_loaded [OF Cons.prems(1) lt loaded(1)])
    have l1: "loadable (sdmc ?s1) e" using Cons.prems(4) by simp
    have c1: "note_count ?s1 + int (length (filter (loadable (sdmc ?s1)) xs)) < MAX_NOTES"
      using loaded(2) Cons.prems(5) by simp
    from Cons.IH [OF inv1 xs Cons.prems(3) l1 c1] obtain s' j where
      "load_entries (xs @ [e]) ?s1 = Inr s'" "note_count ?s1 \<le> j" "j < note_count s'"
      "cstring (title (notes_array s' ! nat j)) = take (TITLE_LEN - 1) (cstring (d_name e))"
      "cstring (content (notes_array s' ! nat j)) =
         cstring (take (NOTE_CONTENT_LEN - 1)
           (the (files (sdmc ?s1) (take 255 (NOTES_DIR @ cstring (d_name e))))))"
      by blast
    with loaded(3) show ?thesis
      by (intro exI [of _ s'] exI [of _ j]) simp
  qed
qed

lemma save_note_new_file:
  assumes t: "NUL \<in> set t" "cstring t \<noteq> []" "length (cstring t) < TITLE_LEN"
      "CHR ''/'' \<notin> set (cstring t)"
    and c: "NUL \<in> set c"
    and fs: "dir_present fs \<or> mkdir_works fs" "writable fs (NOTES_DIR @ cstring t)"
    and fresh: "cstring t \<notin> set (entry_names fs)"
  shows "save_note fs t c =
     Inr ((ensure_notes_directory fs)
           \<lparr>files := (files fs)(NOTES_DIR @ cstring t \<mapsto> cstring c),
            dir_entries := dir_entries (ensure_notes_directory fs)
               @ [\<lparr>d_name = cstring t @ [NUL], d_type = DT_REG\<rparr>]\<rparr>)"
proof -
  define fs1 where "fs1 = ensure_notes_directory fs"
  define p where "p = NOTES_DIR @ cstring t"
  have path: "snprintf_filepath t = Inr p"
    using t(3) by (simp add: snprintf_filepath_ok [OF t(1)] p_def NOTES_DIR_def TITLE_LEN_def)
  have fs1: "dir_present fs1" "writable fs1 = writable fs" "files fs1 = files fs"
    using fs(1) by (auto simp: fs1_def ensure_notes_directory_def mkdir_def)
  have names: "cstring t \<notin> set (entry_names fs1)"
    using fresh by (auto simp: fs1_def ensure_notes_directory_def mkdir_def entry_names_def)
  have name: "drop (length NOTES_DIR) p = cstring t" by (simp add: p_def)
  have op: "fopen_wb fs1 p =
        Some (fs1\<lparr>files := (files fs)(p \<mapsto> []),
                 dir_entries := dir_entries fs1 @ [\<lparr>d_name = cstring t @ [NUL], d_type = DT_REG\<rparr>]\<rparr>)"
    using fs1 fs(2) names t(2,4)
    by (simp add: fopen_wb_def name Let_def) (simp add: p_def)
  have "take (length (cstring c)) c = cstring c" using cstring_eq_take [of c] by simp
  then show ?thesis
    unfolding save_note_def fs1_def [symmetric] Let_def path bind_fault_def [of "Inr _"] sum.case op
      option.case strlen_Inr [OF c] p_def [symmetric]
    by (auto simp: fwrite_def)
qed

lemma path_of_short_name:
  assumes "length n < TITLE_LEN"
  shows "take 255 (NOTES_DIR @ n) = NOTES_DIR @ n"
  using assms by (simp add: NOTES_DIR_def TITLE_LEN_def)

lemma other_path:
  assumes "length n < TITLE_LEN" "m \<noteq> n"
  shows "take 255 (NOTES_DIR @ m) \<noteq> NOTES_DIR @ n"
proof (cases "length (NOTES_DIR @ m) \<le> 255")
  case True
  then have "take 255 (NOTES_DIR @ m) = NOTES_DIR @ m" by simp
  with assms(2) show ?thesis by simp
next
  case False
  then have "length (take 255 (NOTES_DIR @ m)) = 255" by simp
  moreover have "length (NOTES_DIR @ n) < 255"
    using assms(1) by (simp add: NOTES_DIR_def TITLE_LEN_def)
  ultimately show ?thesis by (metis less_irrefl)
qed

lemma save_then_load_index:
  assumes t: "NUL \<in> set t" "cstring t \<noteq> []" "length (cstring t) < TITLE_LEN"
      "CHR ''/'' \<notin> set (cstring t)"
    and c: "NUL \<in> set c" "length (cstring c) < NOTE_CONTENT_LEN"
    and fs: "fs_ok fs" "dir_present fs \<or> mkdir_works fs" "writable fs (NOTES_DIR @ cstring t)"
    and fresh: "cstring t \<notin> set (entry_names fs)"
    and room: "length (filter (loadable fs) (dir_entries fs)) < 10"
  shows "\<exists>fs' s j. save_note fs t c = Inr fs' \<and> load_notes (initial_state fs') = Inr s
     \<and> 0 \<le> j \<and> j < note_count s
     \<and> cstring (title (notes_array s ! nat j)) = cstring t
     \<and> cstring (content (notes_array s ! nat j)) = cstring c"
proof -
  define p where "p = NOTES_DIR @ cstring t"
  define es where "es = dir_entries (ensure_notes_directory fs)"
  define new where "new = \<lparr>d_name = cstring t @ [NUL], d_type = DT_REG\<rparr>"
  define fs' where "fs' = (ensure_notes_directory fs)
           \<lparr>files := (files fs)(p \<mapsto> cstring c), dir_entries := es @ [new]\<rparr>"
  have sv: "save_note fs t c = Inr fs'"
    unfolding fs'_def p_def es_def new_def
    by (rule save_note_new_file [OF t c(1) fs(2,3) fresh])
  have pres: "dir_present fs'"
    using fs(2) by (auto simp: fs'_def ensure_notes_directory_def mkdir_def)
  have es_sub: "set es \<subseteq> set (dir_entries fs)"
    by (auto simp: es_def ensure_notes_directory_def mkdir_def)
  have es_len: "length (filter (loadable fs) es) \<le> length (filter (loadable fs) (dir_entries fs))"
    by (auto simp: es_def ensure_notes_directory_def mkdir_def)
  have es_nul: "list_all (\<lambda>e. NUL \<in> set (d_name e)) es"
    using fs(1) es_sub by (auto simp: fs_ok_def list_all_iff)
  have same: "loadable fs' e = loadable fs e" if "e \<in> set es" for e
  proof -
    from that es_sub have "e \<in> set (dir_entries fs)" by blast
    then have "cstring (d_name e) \<in> set (entry_names fs)" by (simp add: entry_names_def)
    with fresh have "cstring (d_name e) \<noteq> cstring t" by metis
    from other_path [OF t(3) this] show ?thesis
      by (simp add: loadable_def fs'_def p_def)
  qed
  then have flt: "filter (loadable fs') es = filter (loadable fs) es"
    by (auto intro: filter_cong)
  define s1 where "s1 = (initial_state fs')\<lparr>sdmc := fs', note_count := 0\<rparr>"
  have inv1: "app_inv s1" using app_inv_initial [of fs'] initial_start [of fs']
    by (auto simp: s1_def app_inv_def MAX_NOTES_def)
  have f1: "sdmc s1 = fs'" "note_count s1 = 0" by (simp_all add: s1_def)
  have nname: "cstring (d_name new) = cstring t"
    by (simp add: new_def cstring_append_NUL [OF cstring_no_NUL])
  have pnew: "take 255 (NOTES_DIR @ cstring (d_name new)) = p"
    unfolding nname p_def by (rule path_of_short_name [OF t(3)])
  have fnew: "files fs' p = Some (cstring c)" by (simp add: fs'_def)
  have lnew: "loadable (sdmc s1) new"
    unfolding loadable_def f1 pnew fnew by (simp add: new_def)
  have nnew: "NUL \<in> set (d_name new)" by (simp add: new_def)
  have cnt: "note_count s1 + int (length (filter (loadable (sdmc s1)) es)) < MAX_NOTES"
    using es_len room by (simp add: f1 flt MAX_NOTES_def)
  from load_entries_finds_last [OF inv1 es_nul nnew lnew cnt] obtain s j where
    run: "load_entries (es @ [new]) s1 = Inr s" and j: "note_count s1 \<le> j" "j < note_count s"
    and tj: "cstring (title (notes_array s ! nat j)) = take (TITLE_LEN - 1) (cstring (d_name new))"
    and cj: "cstring (content (notes_array s ! nat j)) =
         cstring (take (NOTE_CONTENT_LEN - 1)
           (the (files (sdmc s1) (take 255 (NOTES_DIR @ cstring (d_name new))))))"
    by blast
  have "sdmc (initial_state fs') = fs'" by (simp add: initial_state_def)
  then have ld: "load_notes (initial_state fs') = Inr s"
    using pres run
    by (simp add: load_notes_def ensure_notes_directory_def Let_def s1_def fs'_def)
  have tj': "cstring (title (notes_array s ! nat j)) = cstring t"
    using tj t(3) by (simp add: nname)
  have "cstring (take (NOTE_CONTENT_LEN - 1) (cstring c)) = cstring c"
    using c(2) cstring_id [OF cstring_no_NUL, of c] by simp
  then have cj': "cstring (content (notes_array s ! nat j)) = cstring c"
    using cj unfolding pnew f1 fnew by simp
  from sv ld j tj' cj' f1 show ?thesis by auto
qed

text \<open>
  Claim C4, as amended. Let the title be a terminated string that is not empty, has at
  most 31 bytes, no \<open>/\<close> and names no entry of the directory; let the content be a
  terminated string of at most 1023 bytes; let the directory exist or be creatable, the
  file be openable for writing, and the directory hold fewer than ten entries that
  \<open>load_notes\<close> can load. Then \<open>save_note\<close> followed by \<open>load_notes\<close> returns without a fault
  and the store holds a note with that title and that content.
\<close>

theorem save_then_load:
  assumes t: "NUL \<in> set t" "cstring t \<noteq> []" "length (cstring t) < TITLE_LEN"
      "CHR ''/'' \<notin> set (cstring t)"
    and c: "NUL \<in> set c" "length (cstring c) < NOTE_CONTENT_LEN"
    and fs: "fs_ok fs" "dir_present fs \<or> mkdir_works fs" "writable fs (NOTES_DIR @ cstring t)"
    and fresh: "cstring t \<notin> set (entry_names fs)"
    and room: "length (filter (loadable fs) (dir_entries fs)) < 10"
  shows "\<exists>s. save_and_load fs t c = Inr s \<and> (cstring t, cstring c) \<in> set (stored_notes s)"
proof -
  from save_then_load_index [OF assms] obtain fs' s j where
    sv: "save_note fs t c = Inr fs'" and ld: "load_notes (initial_state fs') = Inr s"
    and j: "0 \<le> j" "j < note_count s"
    and tj: "cstring (title (notes_array s ! nat j)) = cstring t"
    and cj: "cstring (content (notes_array s ! nat j)) = cstring c"
    by blast
  from load_notes_inv [OF app_inv_initial ld initial_start] have inv: "app_inv s" by simp
  let ?kept = "take (nat (note_count s)) (notes_array s)"
  have len: "length ?kept = nat (note_count s)"
    using inv by (auto simp: app_inv_def MAX_NOTES_def)
  have idx: "nat j < length ?kept" using j len by simp
  then have "stored_notes s ! nat j = (cstring t, cstring c)"
    using tj cj by (simp add: stored_notes_def)
  moreover have "nat j < length (stored_notes s)" using idx by (simp add: stored_notes_def)
  ultimately have "(cstring t, cstring c) \<in> set (stored_notes s)"
    by (metis nth_mem)
  with sv ld show ?thesis by (simp add: save_and_load_def bind_fault_def)
qed

theorem save_then_load_witness:
  "case save_and_load empty_card (''todo'' @ [NUL]) (''buy milk'' @ [NUL]) of
     Inr s \<Rightarrow> (''todo'', ''buy milk'') \<in> set (stored_notes s)
   | Inl e \<Rightarrow> False"
proof -
  have t: "cstring (''todo'' @ [NUL]) = ''todo''" and c: "cstring (''buy milk'' @ [NUL]) = ''buy milk''"
    by (simp_all add: cstring_def)
  have "\<exists>s. save_and_load empty_card (''todo'' @ [NUL]) (''buy milk'' @ [NUL]) = Inr s
          \<and> (cstring (''todo'' @ [NUL]), cstring (''buy milk'' @ [NUL])) \<in> set (stored_notes s)"
    by (rule save_then_load)
      (simp_all add: cstring_def TITLE_LEN_def NOTE_CONTENT_LEN_def fs_ok_def,
       simp_all add: empty_card_def entry_names_def)
  then show ?thesis unfolding t c by auto
qed

text \<open>
  On a card that already holds ten loadable files, the saved note \<open>zz\<close> is the eleventh
  entry and \<open>load_notes\<close> stops before it: the store holds the ten older notes only.
\<close>

theorem save_then_load_full_counterexample:
  "map_sum id stored_notes (save_and_load (card_of ten_names) (''zz'' @ [NUL]) (''hi'' @ [NUL]))
   = Inr [(''n0'', ''x''), (''n1'', ''x''), (''n2'', ''x''), (''n3'', ''x''), (''n4'', ''x''),
          (''n5'', ''x''), (''n6'', ''x''), (''n7'', ''x''), (''n8'', ''x''), (''n9'', ''x'')]"
  by code_simp

end
